theory Spec2Isabelle
  imports Main "HOL-Library.Word"
begin

unbundle bit_operations_syntax

section \<open>JavaScript values held by transactions and buffers\<close>

text \<open>
  The numbers of \<^verbatim>\<open>src/transaction.js\<close> are byte values, counts, positions and amounts:
  natural numbers. Two more values reach the fields and the buffers: \<^verbatim>\<open>NaN\<close> (an
  arithmetic operation on \<^verbatim>\<open>undefined\<close>) and \<^verbatim>\<open>undefined\<close> itself (a read past the
  end of an array, an absent property).

  A JavaScript number is a double. It holds every natural number up to 2^53, and sums and
  products that stay below 2^53 are exact, as they are here. From 2^53 on a double holds
  only the multiples of a power of two: \<^verbatim>\<open>Num n\<close> stands for a number of the program
  when \<^verbatim>\<open>n\<close> is such a multiple, and the sums and products of this model are those of the
  program when their result is below 2^53. The positions, counts, indices, versions and
  locktimes that \<^verbatim>\<open>deserialize\<close> reads from a buffer of bytes are below 2^53; an amount
  of eight bytes need not be.
\<close>

datatype jsval = Num nat | NaN | Undefined

text \<open>A property that holds either an array of values or a single value
  (the \<^verbatim>\<open>sequence\<close> of an input).\<close>

datatype jsfield = Arr "jsval list" | Val jsval

datatype error = TypeError | RangeError

text \<open>\<^verbatim>\<open>if (v)\<close>, \<^verbatim>\<open>v || d\<close>: zero, NaN and undefined are falsy, every array is truthy.\<close>

fun truthy :: "jsval \<Rightarrow> bool" where
  "truthy (Num n) = (n \<noteq> 0)"
| "truthy NaN = False"
| "truthy Undefined = False"

fun truthy_field :: "jsfield \<Rightarrow> bool" where
  "truthy_field (Arr xs) = True"
| "truthy_field (Val v) = truthy v"

text \<open>\<^verbatim>\<open>a + b\<close> and \<^verbatim>\<open>a * b\<close> on numbers; with \<^verbatim>\<open>undefined\<close> or NaN the result is NaN.\<close>

fun js_add :: "jsval \<Rightarrow> jsval \<Rightarrow> jsval" where
  "js_add (Num a) (Num b) = Num (a + b)"
| "js_add _ _ = NaN"

fun js_mul :: "jsval \<Rightarrow> jsval \<Rightarrow> jsval" where
  "js_mul (Num a) (Num b) = Num (a * b)"
| "js_mul _ _ = NaN"

text \<open>
  \<^verbatim>\<open>parseInt(v)\<close> converts its argument to a string and reads the digits at its start.
  Below \<^verbatim>\<open>1e21\<close> (at most 21 decimal digits) the string is the number in positional
  notation, and \<^verbatim>\<open>parseInt\<close> gives the number back. From \<^verbatim>\<open>1e21\<close> on the string is in
  exponent notation, one digit before the point or the \<^verbatim>\<open>e\<close> (\<^verbatim>\<open>"1e+21"\<close>,
  \<^verbatim>\<open>"1.5e+21"\<close>), and \<^verbatim>\<open>parseInt\<close> gives that digit. The digits of the string are those
  of the shortest decimal that rounds to the number: the digit is the first digit of
  \<^verbatim>\<open>n\<close>, or the next one when the next multiple \<^verbatim>\<open>(d + 1) * 10 ^ k\<close> is within half a
  unit in the last place of the 53-bit mantissa (at exactly half a unit, when the
  mantissa is even). Of NaN or undefined the result is NaN.
\<close>

fun decimal_length :: "nat \<Rightarrow> nat" where
  "decimal_length n = (if n < 10 then 1 else Suc (decimal_length (n div 10)))"

fun binary_length :: "nat \<Rightarrow> nat" where
  "binary_length n = (if n = 0 then 0 else Suc (binary_length (n div 2)))"

declare decimal_length.simps [simp del] binary_length.simps [simp del]

definition exponent_head :: "nat \<Rightarrow> nat" where
  "exponent_head n =
     (let p = 10 ^ (decimal_length n - 1);
          d = n div p;
          u = 2 ^ (binary_length n - 53);
          g = 2 * ((d + 1) * p - n)
      in if g < u \<or> (g = u \<and> even (n div u)) then (if d = 9 then 1 else d + 1) else d)"

fun parseInt :: "jsval \<Rightarrow> jsval" where
  "parseInt (Num n) = (if decimal_length n \<le> 21 then Num n else Num (exponent_head n))"
| "parseInt _ = NaN"

text \<open>\<^verbatim>\<open>buffer.concat(x)\<close>: an array argument is appended element by element, any other
  value is appended as one element.\<close>

fun concat_field :: "jsval list \<Rightarrow> jsfield \<Rightarrow> jsval list" where
  "concat_field buffer (Arr xs) = buffer @ xs"
| "concat_field buffer (Val v) = buffer @ [v]"

text \<open>\<^verbatim>\<open>buffer[i]\<close>: undefined past the end, and at the index NaN.\<close>

fun elem :: "jsval list \<Rightarrow> jsval \<Rightarrow> jsval" where
  "elem buffer (Num i) = (if i < length buffer then buffer ! i else Undefined)"
| "elem buffer _ = Undefined"

definition is_byte :: "jsval \<Rightarrow> bool" where
  "is_byte v = (case v of Num n \<Rightarrow> n < 256 | _ \<Rightarrow> False)"

definition bytes :: "jsval list \<Rightarrow> bool" where
  "bytes xs = list_all is_byte xs"

section \<open>The conversion collaborator\<close>

text \<open>
  Modelled from the spec: \<^verbatim>\<open>convert.numToBytes\<close> (the file \<^verbatim>\<open>convert.js\<close> is not among the
  sources). Spec section 2: "integer to fixed-width little-endian bytes". The spec says
  nothing of a value that is not a number; there every byte is taken to be NaN.
\<close>

fun leBytes :: "nat \<Rightarrow> nat \<Rightarrow> jsval list" where
  "leBytes n 0 = []"
| "leBytes n (Suc k) = Num (n mod 256) # leBytes (n div 256) k"

fun numToBytes :: "jsval \<Rightarrow> nat \<Rightarrow> jsval list" where
  "numToBytes (Num n) k = leBytes n k"
| "numToBytes _ k = replicate k NaN"

text \<open>
  Modelled from the spec: \<^verbatim>\<open>convert.numToVarInt\<close>. Spec section 4.1: "values < 0xFD encode
  as one byte; 0xFD prefixes a 2-byte LE value; 0xFE a 4-byte LE value; 0xFF an 8-byte LE
  value."
\<close>

definition numToVarInt :: "nat \<Rightarrow> jsval list" where
  "numToVarInt n =
     (if n < 253 then [Num n]
      else if n < 65536 then Num 253 # leBytes n 2
      else if n < 4294967296 then Num 254 # leBytes n 4
      else Num 255 # leBytes n 8)"

text \<open>
  Modelled from the spec: \<^verbatim>\<open>convert.bytesToNum\<close>, the inverse of \<^verbatim>\<open>numToBytes\<close>
  (little-endian bytes to integer). The integer is exact here; it is the number that the
  program holds when it is below 2^53.
\<close>

fun bytesToNum :: "jsval list \<Rightarrow> jsval" where
  "bytesToNum [] = Num 0"
| "bytesToNum (b # bs) = js_add b (js_mul (Num 256) (bytesToNum bs))"

text \<open>
  Modelled from the spec: \<^verbatim>\<open>convert.bytesToHex\<close> and \<^verbatim>\<open>convert.hexToBytes\<close> ("hex to bytes
  and back"): two lower-case hexadecimal digits for each byte (the characters \<^verbatim>\<open>0\<close> to \<^verbatim>\<open>9\<close> have the
  codes 48 to 57, \<^verbatim>\<open>a\<close> to \<^verbatim>\<open>f\<close> 97 to 102, \<^verbatim>\<open>A\<close> to \<^verbatim>\<open>F\<close> 65 to 70). The spec covers arrays of
  bytes and strings of hexadecimal digits only; an element that is not a number is
  rendered as \<^verbatim>\<open>NaN\<close>, a pair of characters that is not hexadecimal is read as NaN, and
  an unpaired last character is dropped.
\<close>

definition hexDigit :: "nat \<Rightarrow> char" where
  "hexDigit d = (let m = d mod 16 in char_of (if m < 10 then 48 + m else 87 + m))"

definition hexVal :: "char \<Rightarrow> nat option" where
  "hexVal c =
     (let n = (of_char c :: nat)
      in if 48 \<le> n \<and> n \<le> 57 then Some (n - 48)
         else if 97 \<le> n \<and> n \<le> 102 then Some (n - 87)
         else if 65 \<le> n \<and> n \<le> 70 then Some (n - 55)
         else None)"

fun byteToHex :: "jsval \<Rightarrow> string" where
  "byteToHex (Num n) = [hexDigit (n div 16), hexDigit n]"
| "byteToHex _ = ''NaN''"

definition bytesToHex :: "jsval list \<Rightarrow> string" where
  "bytesToHex bs = concat (map byteToHex bs)"

fun hexToBytes :: "string \<Rightarrow> jsval list" where
  "hexToBytes (c # d # cs) =
     (case (hexVal c, hexVal d) of
        (Some h, Some l) \<Rightarrow> Num (16 * h + l)
      | _ \<Rightarrow> NaN) # hexToBytes cs"
| "hexToBytes _ = []"

section \<open>The data model\<close>

text \<open>
  A \<^verbatim>\<open>Script\<close> (the file \<^verbatim>\<open>script.js\<close> is not among the sources) is used here only
  through its \<^verbatim>\<open>buffer\<close>, so a script is its buffer; \<^verbatim>\<open>new Script()\<close> is the empty
  buffer. The cached \<^verbatim>\<open>hash\<close> of a transaction and the \<^verbatim>\<open>address\<close> of an output are
  derived displays computed by collaborators and are left out.
\<close>

type_synonym script = "jsval list"

record outpoint =
  hash :: string
  index :: jsval

record TransactionIn =
  outpoint :: outpoint
  script :: script
  sequence :: jsfield

record TransactionOut =
  out_value :: jsval
  out_script :: script

record Transaction =
  version :: nat
  locktime :: nat
  ins :: "TransactionIn list"
  outs :: "TransactionOut list"

text \<open>Line 16: \<^verbatim>\<open>this.defaultSequence = [255, 255, 255, 255]\<close>, a field of a Transaction.\<close>

definition defaultSequence :: "jsval list" where
  "defaultSequence = [Num 255, Num 255, Num 255, Num 255]"

subsection \<open>Constructors\<close>

text \<open>
  The argument of \<^verbatim>\<open>new TransactionIn(data)\<close> (lines 392-408) in its object form with an
  \<^verbatim>\<open>outpoint\<close>: the script and the sequence may be absent. An absent property reads as
  undefined. A TransactionIn has no \<^verbatim>\<open>defaultSequence\<close> of its own (line 16 sets it on
  the Transaction), so \<^verbatim>\<open>this.defaultSequence\<close> on line 407 is undefined.
\<close>

record TransactionIn_data =
  d_outpoint :: outpoint
  d_script :: "script option"
  d_sequence :: jsfield

definition new_TransactionIn :: "TransactionIn_data \<Rightarrow> TransactionIn" where
  "new_TransactionIn data =
     \<lparr> outpoint = d_outpoint data,
       script = (case d_script data of Some s \<Rightarrow> s | None \<Rightarrow> []),
       sequence = (if truthy_field (d_sequence data) then d_sequence data else Val Undefined) \<rparr>"

text \<open>\<^verbatim>\<open>new TransactionOut(data)\<close> (lines 421-437) with a Script and a number: the script
  is cloned, the number kept (line 436). The number is a double: an amount that
  \<^verbatim>\<open>deserialize\<close> has read from eight bytes (line 293) is the amount of the bytes
  when it is below 2^53, and the theorems about amounts read from bytes are stated for
  such amounts (\<^verbatim>\<open>exact_amounts\<close>).\<close>

definition new_TransactionOut :: "TransactionOut \<Rightarrow> TransactionOut" where
  "new_TransactionOut data = \<lparr> out_value = out_value data, out_script = out_script data \<rparr>"

text \<open>
  \<^verbatim>\<open>addInput\<close> (lines 54-75), first branch: an existing TransactionIn is pushed. Third
  branch, taken for a hash string of at most 65 characters and an index: a new input with
  an empty script and the transaction's default sequence.
\<close>

definition addInput :: "Transaction \<Rightarrow> TransactionIn \<Rightarrow> Transaction" where
  "addInput tx txin = tx\<lparr>ins := ins tx @ [txin]\<rparr>"

definition addInput_hash :: "Transaction \<Rightarrow> string \<Rightarrow> jsval \<Rightarrow> Transaction" where
  "addInput_hash tx h outIndex =
     tx\<lparr>ins := ins tx @
        [new_TransactionIn \<lparr> d_outpoint = \<lparr> hash = h, index = outIndex \<rparr>,
                             d_script = Some [],
                             d_sequence = Arr defaultSequence \<rparr>]\<rparr>"

definition addOutput :: "Transaction \<Rightarrow> TransactionOut \<Rightarrow> Transaction" where
  "addOutput tx txout = tx\<lparr>outs := outs tx @ [txout]\<rparr>"

text \<open>\<^verbatim>\<open>new Transaction()\<close> without a document (lines 12-16).\<close>

definition empty_Transaction :: Transaction where
  "empty_Transaction = \<lparr> version = 1, locktime = 0, ins = [], outs = [] \<rparr>"

text \<open>
  The document that \<^verbatim>\<open>deserialize\<close> builds (lines 271-298) and \<^verbatim>\<open>new Transaction(doc)\<close>
  (lines 18-39): a falsy version or locktime keeps the default, each input and output
  goes through its constructor and is pushed.
\<close>

record doc =
  doc_version :: jsval
  doc_locktime :: jsval
  doc_ins :: "TransactionIn_data list"
  doc_outs :: "TransactionOut list"

definition new_Transaction :: "doc \<Rightarrow> Transaction" where
  "new_Transaction d =
     (let t0 = empty_Transaction;
          t1 = (case doc_version d of Num v \<Rightarrow> if v \<noteq> 0 then t0\<lparr>version := v\<rparr> else t0
                | _ \<Rightarrow> t0);
          t2 = (case doc_locktime d of Num l \<Rightarrow> if l \<noteq> 0 then t1\<lparr>locktime := l\<rparr> else t1
                | _ \<Rightarrow> t1);
          t3 = foldl (\<lambda>t input. addInput t (new_TransactionIn input)) t2 (doc_ins d)
      in foldl (\<lambda>t output. addOutput t (new_TransactionOut output)) t3 (doc_outs d))"

section \<open>The codec\<close>

subsection \<open>serialize (lines 112-143)\<close>

definition serialize_in :: "jsval list \<Rightarrow> TransactionIn \<Rightarrow> jsval list" where
  "serialize_in buffer txin =
     (let buffer = buffer @ rev (hexToBytes (hash (outpoint txin)));
          buffer = buffer @ numToBytes (parseInt (index (outpoint txin))) 4;
          scriptBytes = script txin;
          buffer = buffer @ numToVarInt (length scriptBytes);
          buffer = buffer @ scriptBytes
      in concat_field buffer (sequence txin))"

definition serialize_out :: "jsval list \<Rightarrow> TransactionOut \<Rightarrow> jsval list" where
  "serialize_out buffer txout =
     (let buffer = buffer @ numToBytes (out_value txout) 8;
          scriptBytes = out_script txout;
          buffer = buffer @ numToVarInt (length scriptBytes)
      in buffer @ scriptBytes)"

definition serialize :: "Transaction \<Rightarrow> jsval list" where
  "serialize tx =
     (let buffer = [];
          buffer = buffer @ numToBytes (parseInt (Num (version tx))) 4;
          buffer = buffer @ numToVarInt (length (ins tx));
          buffer = foldl serialize_in buffer (ins tx);
          buffer = buffer @ numToVarInt (length (outs tx));
          buffer = foldl serialize_out buffer (outs tx)
      in buffer @ numToBytes (parseInt (Num (locktime tx))) 4)"

subsection \<open>deserialize (lines 246-301)\<close>

text \<open>
  The closures of \<^verbatim>\<open>deserialize\<close> share the cursor \<^verbatim>\<open>pos\<close>: each reader takes the
  cursor and returns it with its result. The cursor is a number, or NaN once a length
  that is NaN has been added to it.
\<close>

fun js_inc :: "jsval \<Rightarrow> jsval" where
  "js_inc (Num p) = Num (Suc p)"
| "js_inc _ = NaN"

text \<open>\<^verbatim>\<open>readAsInt(bytes)\<close> for a number of bytes: the byte at the cursor plus 256 times
  the rest; \<^verbatim>\<open>buffer[pos-1]\<close> is read before the recursive call.\<close>

fun readAsInt :: "jsval list \<Rightarrow> nat \<Rightarrow> jsval \<Rightarrow> jsval \<times> jsval" where
  "readAsInt buffer 0 pos = (Num 0, pos)"
| "readAsInt buffer (Suc k) pos =
     (let b = elem buffer pos;
          (r, pos') = readAsInt buffer k (js_inc pos)
      in (js_add b (js_mul r (Num 256)), pos'))"

text \<open>
  \<^verbatim>\<open>readVarInt()\<close>: a first element below 253 is the value; otherwise \<^verbatim>\<open>readAsInt\<close> reads
  \<^verbatim>\<open>buffer[pos-1] - 251\<close> bytes. When the first element is undefined (the cursor at or
  past the end) or NaN, the comparison is false and \<^verbatim>\<open>readAsInt(NaN)\<close> never reaches
  \<^verbatim>\<open>bytes === 0\<close>: the recursion ends with the call stack exhausted, a RangeError.
\<close>

definition readVarInt :: "jsval list \<Rightarrow> jsval \<Rightarrow> error + (jsval \<times> jsval)" where
  "readVarInt buffer pos =
     (case elem buffer pos of
        Num b \<Rightarrow> if b < 253 then Inr (Num b, js_inc pos)
                 else Inr (readAsInt buffer (b - 251) (js_inc pos))
      | _ \<Rightarrow> Inl RangeError)"

text \<open>\<^verbatim>\<open>readBytes(bytes)\<close>: \<^verbatim>\<open>pos += bytes\<close>, then \<^verbatim>\<open>buffer.slice(pos - bytes, pos)\<close>. A
  slice stops at the end of the buffer; with a NaN bound it is empty.\<close>

fun readBytes :: "jsval list \<Rightarrow> jsval \<Rightarrow> jsval \<Rightarrow> jsval list \<times> jsval" where
  "readBytes buffer (Num n) (Num p) = (take n (drop p buffer), Num (p + n))"
| "readBytes buffer _ _ = ([], NaN)"

definition readVarString :: "jsval list \<Rightarrow> jsval \<Rightarrow> error + (jsval list \<times> jsval)" where
  "readVarString buffer pos =
     (case readVarInt buffer pos of
        Inl e \<Rightarrow> Inl e
      | Inr (len, pos') \<Rightarrow> Inr (readBytes buffer len pos'))"

text \<open>One pass of the loop of lines 279-288, and the loop for a count.\<close>

definition read_in :: "jsval list \<Rightarrow> jsval \<Rightarrow> error + (TransactionIn_data \<times> jsval)" where
  "read_in buffer pos =
     (let (h, pos1) = readBytes buffer (Num 32) pos;
          (i, pos2) = readAsInt buffer 4 pos1
      in case readVarString buffer pos2 of
           Inl e \<Rightarrow> Inl e
         | Inr (s, pos3) \<Rightarrow>
             (let (q, pos4) = readBytes buffer (Num 4) pos3
              in Inr (\<lparr> d_outpoint = \<lparr> hash = bytesToHex (rev h), index = i \<rparr>,
                         d_script = Some s, d_sequence = Arr q \<rparr>, pos4)))"

fun read_ins :: "jsval list \<Rightarrow> nat \<Rightarrow> jsval \<Rightarrow> error + (TransactionIn_data list \<times> jsval)" where
  "read_ins buffer 0 pos = Inr ([], pos)"
| "read_ins buffer (Suc n) pos =
     (case read_in buffer pos of
        Inl e \<Rightarrow> Inl e
      | Inr (x, pos') \<Rightarrow>
          (case read_ins buffer n pos' of
             Inl e \<Rightarrow> Inl e
           | Inr (xs, pos'') \<Rightarrow> Inr (x # xs, pos'')))"

definition read_out :: "jsval list \<Rightarrow> jsval \<Rightarrow> error + (TransactionOut \<times> jsval)" where
  "read_out buffer pos =
     (let (v, pos1) = readBytes buffer (Num 8) pos
      in case readVarString buffer pos1 of
           Inl e \<Rightarrow> Inl e
         | Inr (s, pos2) \<Rightarrow> Inr (\<lparr> out_value = bytesToNum v, out_script = s \<rparr>, pos2))"

fun read_outs :: "jsval list \<Rightarrow> nat \<Rightarrow> jsval \<Rightarrow> error + (TransactionOut list \<times> jsval)" where
  "read_outs buffer 0 pos = Inr ([], pos)"
| "read_outs buffer (Suc n) pos =
     (case read_out buffer pos of
        Inl e \<Rightarrow> Inl e
      | Inr (x, pos') \<Rightarrow>
          (case read_outs buffer n pos' of
             Inl e \<Rightarrow> Inl e
           | Inr (xs, pos'') \<Rightarrow> Inr (x # xs, pos'')))"

text \<open>\<^verbatim>\<open>for (i = 0; i < n; i++)\<close>: no pass when the count is NaN.\<close>

fun loop_count :: "jsval \<Rightarrow> nat" where
  "loop_count (Num n) = n"
| "loop_count _ = 0"

definition deserialize :: "jsval list \<Rightarrow> error + Transaction" where
  "deserialize buffer =
     (let (v, pos1) = readAsInt buffer 4 (Num 0)
      in case readVarInt buffer pos1 of
           Inl e \<Rightarrow> Inl e
         | Inr (n_ins, pos2) \<Rightarrow>
             (case read_ins buffer (loop_count n_ins) pos2 of
                Inl e \<Rightarrow> Inl e
              | Inr (txins, pos3) \<Rightarrow>
                  (case readVarInt buffer pos3 of
                     Inl e \<Rightarrow> Inl e
                   | Inr (n_outs, pos4) \<Rightarrow>
                       (case read_outs buffer (loop_count n_outs) pos4 of
                          Inl e \<Rightarrow> Inl e
                        | Inr (txouts, pos5) \<Rightarrow>
                            (let (l, pos6) = readAsInt buffer 4 pos5
                             in Inr (new_Transaction
                                  \<lparr> doc_version = v, doc_locktime = l,
                                    doc_ins = txins, doc_outs = txouts \<rparr>))))))"

section \<open>clone (lines 225-240, 410-419, 439-445)\<close>

text \<open>
  The copies as values; the sharing of arrays between a transaction and its clone is the
  subject of the store model further down. \<^verbatim>\<open>TransactionIn.prototype.clone\<close> goes through
  the constructor, so a falsy sequence of the original becomes undefined in the copy.
\<close>

definition clone_in :: "TransactionIn \<Rightarrow> TransactionIn" where
  "clone_in txin =
     new_TransactionIn
       \<lparr> d_outpoint = \<lparr> hash = hash (outpoint txin), index = index (outpoint txin) \<rparr>,
         d_script = Some (script txin),
         d_sequence = sequence txin \<rparr>"

definition clone_out :: "TransactionOut \<Rightarrow> TransactionOut" where
  "clone_out txout =
     new_TransactionOut \<lparr> out_value = out_value txout, out_script = out_script txout \<rparr>"

definition clone :: "Transaction \<Rightarrow> Transaction" where
  "clone tx =
     (let newTx = empty_Transaction;
          newTx = newTx\<lparr>version := version tx\<rparr>;
          newTx = newTx\<lparr>locktime := locktime tx\<rparr>;
          newTx = foldl (\<lambda>t txin. addInput t (clone_in txin)) newTx (ins tx)
      in foldl (\<lambda>t txout. addOutput t (clone_out txout)) newTx (outs tx))"

section \<open>The signature hash (lines 151-209)\<close>

definition SIGHASH_ALL :: nat where "SIGHASH_ALL = 1"
definition SIGHASH_NONE :: nat where "SIGHASH_NONE = 2"
definition SIGHASH_SINGLE :: nat where "SIGHASH_SINGLE = 3"

text \<open>Line 154 reads \<^verbatim>\<open>var SIGHASH_ANYONECANPAY = 80;\<close>: the decimal number eighty.\<close>

definition SIGHASH_ANYONECANPAY :: nat where "SIGHASH_ANYONECANPAY = 80"

text \<open>
  \<^verbatim>\<open>txTmp\<close> as it stands on line 203, before it is serialized. Line 181 assigns to a
  property of \<^verbatim>\<open>txTmp.ins[inIndex]\<close>, which is undefined for an index past the inputs: a
  TypeError. The branch for SIGHASH_SINGLE (lines 194-196) is empty.
\<close>

definition signature_txTmp :: "Transaction \<Rightarrow> script \<Rightarrow> nat \<Rightarrow> nat \<Rightarrow> error + Transaction" where
  "signature_txTmp tx connectedScript inIndex hashType =
     (let txTmp = clone tx;
          txTmp = txTmp\<lparr>ins := map (\<lambda>txin. txin\<lparr>script := []\<rparr>) (ins txTmp)\<rparr>
      in if length (ins txTmp) \<le> inIndex then Inl TypeError
         else
           (let txTmp = txTmp\<lparr>ins := (ins txTmp)
                           [inIndex := (ins txTmp ! inIndex)\<lparr>script := connectedScript\<rparr>]\<rparr>;
                txTmp =
                  (if hashType AND 0x1f = SIGHASH_NONE
                   then txTmp\<lparr>outs := [],
                              ins := map (\<lambda>(i, txin). if i \<noteq> inIndex
                                                        then txin\<lparr>sequence := Val (Num 0)\<rparr>
                                                        else txin)
                                         (enumerate 0 (ins txTmp))\<rparr>
                   else if hashType AND 0x1f = SIGHASH_SINGLE then txTmp
                   else txTmp);
                txTmp =
                  (if hashType AND SIGHASH_ANYONECANPAY \<noteq> 0
                   then txTmp\<lparr>ins := [ins txTmp ! inIndex]\<rparr>
                   else txTmp)
            in Inr txTmp))"

text \<open>\<^verbatim>\<open>buffer\<close> after line 205: the serialized \<^verbatim>\<open>txTmp\<close> and the hash type in four
  bytes.\<close>

definition signature_buffer :: "Transaction \<Rightarrow> script \<Rightarrow> nat \<Rightarrow> nat \<Rightarrow> error + jsval list" where
  "signature_buffer tx connectedScript inIndex hashType =
     (case signature_txTmp tx connectedScript inIndex hashType of
        Inl e \<Rightarrow> Inl e
      | Inr txTmp \<Rightarrow> Inr (serialize txTmp @ numToBytes (parseInt (Num hashType)) 4))"

text \<open>
  Lines 206-208 hash the buffer twice with SHA-256 of the package \<^verbatim>\<open>crypto-js\<close>. The
  digest function (word array conversion, two rounds of SHA-256, conversion back) is the
  parameter \<open>sha256d\<close>.
\<close>

definition hashTransactionForSignature ::
  "(jsval list \<Rightarrow> jsval list) \<Rightarrow> Transaction \<Rightarrow> script \<Rightarrow> nat \<Rightarrow> nat \<Rightarrow> error + jsval list" where
  "hashTransactionForSignature sha256d tx connectedScript inIndex hashType =
     (case signature_buffer tx connectedScript inIndex hashType of
        Inl e \<Rightarrow> Inl e
      | Inr buffer \<Rightarrow> Inr (sha256d buffer))"

text \<open>Transactions used as concrete inputs: one input and one output (the golden vector
  of spec section 8), and the same with a second input appended.\<close>

definition example_hash :: string where
  "example_hash = concat (replicate 31 ''00'') @ ''01''"

definition example_tx :: Transaction where
  "example_tx =
     addOutput (addInput_hash empty_Transaction example_hash (Num 0))
       \<lparr> out_value = Num 0, out_script = [] \<rparr>"

definition example_tx2 :: Transaction where
  "example_tx2 = addInput_hash example_tx example_hash (Num 1)"

section \<open>Transactions that the codec is stated for\<close>

text \<open>
  The display form of a previous-transaction hash: 64 lower-case hexadecimal digits.
\<close>

definition lower_hex :: "char \<Rightarrow> bool" where
  "lower_hex c =
     (let n = (of_char c :: nat) in (48 \<le> n \<and> n \<le> 57) \<or> (97 \<le> n \<and> n \<le> 102))"

definition display_hex :: "string \<Rightarrow> bool" where
  "display_hex h = (length h = 64 \<and> list_all lower_hex h)"

text \<open>
  The fields in the ranges of the data model of spec section 3 (a 32-bit index, a 64-bit
  value, a sequence of four elements), and, for the lengths, the range below 65536 in
  which a varint is one byte or the prefix 0xFD and two bytes.
\<close>

definition wf_in :: "TransactionIn \<Rightarrow> bool" where
  "wf_in txin =
     (display_hex (hash (outpoint txin))
      \<and> (case index (outpoint txin) of Num i \<Rightarrow> i < 2 ^ 32 | _ \<Rightarrow> False)
      \<and> length (script txin) < 65536
      \<and> (case sequence txin of Arr q \<Rightarrow> length q = 4 | Val v \<Rightarrow> False))"

definition wf_out :: "TransactionOut \<Rightarrow> bool" where
  "wf_out txout =
     ((case out_value txout of Num v \<Rightarrow> v < 2 ^ 64 | _ \<Rightarrow> False)
      \<and> length (out_script txout) < 65536)"

definition wf_tx :: "Transaction \<Rightarrow> bool" where
  "wf_tx tx =
     (version tx < 2 ^ 32 \<and> locktime tx < 2 ^ 32
      \<and> length (ins tx) < 65536 \<and> length (outs tx) < 65536
      \<and> list_all wf_in (ins tx) \<and> list_all wf_out (outs tx))"

text \<open>The object that \<^verbatim>\<open>deserialize\<close> pushes for an input (lines 280-287).\<close>

definition data_of :: "TransactionIn \<Rightarrow> TransactionIn_data" where
  "data_of txin =
     \<lparr> d_outpoint = outpoint txin, d_script = Some (script txin), d_sequence = sequence txin \<rparr>"

text \<open>What \<^verbatim>\<open>serialize\<close> has appended before the locktime (line 140).\<close>

definition serialize_body :: "Transaction \<Rightarrow> jsval list" where
  "serialize_body tx =
     leBytes (version tx) 4 @ numToVarInt (length (ins tx))
       @ concat (map (serialize_in []) (ins tx))
       @ numToVarInt (length (outs tx)) @ concat (map (serialize_out []) (outs tx))"

section \<open>The wire layout of spec section 4.1\<close>

text \<open>
  The layout in the spec's words, for a transaction given by its bytes: "version (LE32),
  varint(input count), per input [32-byte previous-hash in reversed byte order, index
  (LE32), varint(script length), script bytes, sequence (4 bytes)], varint(output count),
  per output [value (LE64), varint(script length), script bytes], locktime (LE32)". The
  previous hash is held in display (big-endian) order.
\<close>

record wire_in =
  prev_hash :: "nat list"
  prev_index :: nat
  unlock_script :: "nat list"
  seq_bytes :: "nat list"

record wire_out =
  amount :: nat
  lock_script :: "nat list"

record wire_tx =
  w_version :: nat
  w_ins :: "wire_in list"
  w_outs :: "wire_out list"
  w_locktime :: nat

definition wire_in_bytes :: "wire_in \<Rightarrow> jsval list" where
  "wire_in_bytes wi =
     map Num (rev (prev_hash wi)) @ leBytes (prev_index wi) 4
       @ numToVarInt (length (unlock_script wi)) @ map Num (unlock_script wi)
       @ map Num (seq_bytes wi)"

definition wire_out_bytes :: "wire_out \<Rightarrow> jsval list" where
  "wire_out_bytes wo =
     leBytes (amount wo) 8 @ numToVarInt (length (lock_script wo)) @ map Num (lock_script wo)"

definition wire_encoding :: "wire_tx \<Rightarrow> jsval list" where
  "wire_encoding w =
     leBytes (w_version w) 4
       @ numToVarInt (length (w_ins w)) @ concat (map wire_in_bytes (w_ins w))
       @ numToVarInt (length (w_outs w)) @ concat (map wire_out_bytes (w_outs w))
       @ leBytes (w_locktime w) 4"

definition byte_list :: "nat list \<Rightarrow> bool" where
  "byte_list bs = list_all (\<lambda>b. b < 256) bs"

definition wire_in_ok :: "wire_in \<Rightarrow> bool" where
  "wire_in_ok wi =
     (length (prev_hash wi) = 32 \<and> byte_list (prev_hash wi) \<and> prev_index wi < 2 ^ 32
      \<and> byte_list (unlock_script wi) \<and> length (seq_bytes wi) = 4 \<and> byte_list (seq_bytes wi))"

definition wire_out_ok :: "wire_out \<Rightarrow> bool" where
  "wire_out_ok wo = (amount wo < 2 ^ 64 \<and> byte_list (lock_script wo))"

definition wire_ok :: "wire_tx \<Rightarrow> bool" where
  "wire_ok w =
     (w_version w < 2 ^ 32 \<and> w_locktime w < 2 ^ 32
      \<and> list_all wire_in_ok (w_ins w) \<and> list_all wire_out_ok (w_outs w))"

text \<open>Every count and script length below 65536.\<close>

definition short_varints :: "wire_tx \<Rightarrow> bool" where
  "short_varints w =
     (length (w_ins w) < 65536 \<and> length (w_outs w) < 65536
      \<and> list_all (\<lambda>wi. length (unlock_script wi) < 65536) (w_ins w)
      \<and> list_all (\<lambda>wo. length (lock_script wo) < 65536) (w_outs w))"

text \<open>
  Every amount below 2^53. The value of an output is a JavaScript number (lines 293 and
  432-436), a double: it holds every natural number below 2^53, and from there on only
  some (the eight bytes of 2^53 + 1 are read as 2^53).
\<close>

definition exact_amounts :: "wire_tx \<Rightarrow> bool" where
  "exact_amounts w = list_all (\<lambda>wo. amount wo < 2 ^ 53) (w_outs w)"

text \<open>The transaction object with the fields of a wire transaction.\<close>

definition in_of_wire :: "wire_in \<Rightarrow> TransactionIn" where
  "in_of_wire wi =
     \<lparr> outpoint = \<lparr> hash = bytesToHex (map Num (prev_hash wi)), index = Num (prev_index wi) \<rparr>,
       script = map Num (unlock_script wi),
       sequence = Arr (map Num (seq_bytes wi)) \<rparr>"

definition out_of_wire :: "wire_out \<Rightarrow> TransactionOut" where
  "out_of_wire wo = \<lparr> out_value = Num (amount wo), out_script = map Num (lock_script wo) \<rparr>"

definition tx_of_wire :: "wire_tx \<Rightarrow> Transaction" where
  "tx_of_wire w =
     \<lparr> version = w_version w, locktime = w_locktime w,
       ins = map in_of_wire (w_ins w), outs = map out_of_wire (w_outs w) \<rparr>"

text \<open>Concrete wire transactions: the golden vector of spec section 8, and the empty
  transaction with version 0.\<close>

definition wire_example :: wire_tx where
  "wire_example =
     \<lparr> w_version = 1,
       w_ins = [\<lparr> prev_hash = replicate 31 0 @ [1], prev_index = 0, unlock_script = [],
                  seq_bytes = [255, 255, 255, 255] \<rparr>],
       w_outs = [\<lparr> amount = 0, lock_script = [] \<rparr>],
       w_locktime = 0 \<rparr>"

definition wire_zero :: wire_tx where
  "wire_zero = \<lparr> w_version = 0, w_ins = [], w_outs = [], w_locktime = 0 \<rparr>"

section \<open>Objects in a store\<close>

text \<open>
  \<^verbatim>\<open>clone\<close> and \<^verbatim>\<open>hashTransactionForSignature\<close> create objects and assign to their
  properties; whether an assignment through one transaction shows through another
  depends on which objects they share. The store holds the arrays of numbers (the buffer
  of a script, a sequence), the inputs, the outputs and the transactions, each at an
  address; \<open>lim\<close> is the next unused address, and a new object takes it. A Script is its
  buffer. The outpoint of an input and the \<^verbatim>\<open>ins\<close> and \<^verbatim>\<open>outs\<close> arrays of a transaction
  are created with their owner (lines 14-15, 67-70, 412-415) and are kept inside it.
\<close>

type_synonym addr = nat

text \<open>The \<^verbatim>\<open>sequence\<close> property: a reference to an array, or a number or undefined.\<close>

datatype seq_ref = Ref addr | Prim jsval

record in_obj =
  o_hash :: string
  o_index :: jsval
  o_script :: addr
  o_sequence :: seq_ref

record out_obj =
  o_value :: jsval
  o_out_script :: addr

record tx_obj =
  o_version :: nat
  o_locktime :: nat
  o_ins :: "addr list"
  o_outs :: "addr list"
  o_defaultSequence :: addr

record store =
  arrays :: "addr \<Rightarrow> jsval list"
  inputs :: "addr \<Rightarrow> in_obj"
  outputs :: "addr \<Rightarrow> out_obj"
  txs :: "addr \<Rightarrow> tx_obj"
  lim :: addr

definition empty_store :: store where
  "empty_store =
     \<lparr> arrays = (\<lambda>a. []),
       inputs = (\<lambda>a. \<lparr> o_hash = [], o_index = Undefined, o_script = 0,
                        o_sequence = Prim Undefined \<rparr>),
       outputs = (\<lambda>a. \<lparr> o_value = Undefined, o_out_script = 0 \<rparr>),
       txs = (\<lambda>a. \<lparr> o_version = 0, o_locktime = 0, o_ins = [], o_outs = [],
                     o_defaultSequence = 0 \<rparr>),
       lim = 0 \<rparr>"

definition alloc_array :: "jsval list \<Rightarrow> store \<Rightarrow> addr \<times> store" where
  "alloc_array xs st = (lim st, st\<lparr>arrays := (arrays st)(lim st := xs), lim := Suc (lim st)\<rparr>)"

definition alloc_in :: "in_obj \<Rightarrow> store \<Rightarrow> addr \<times> store" where
  "alloc_in obj st = (lim st, st\<lparr>inputs := (inputs st)(lim st := obj), lim := Suc (lim st)\<rparr>)"

definition alloc_out :: "out_obj \<Rightarrow> store \<Rightarrow> addr \<times> store" where
  "alloc_out obj st = (lim st, st\<lparr>outputs := (outputs st)(lim st := obj), lim := Suc (lim st)\<rparr>)"

definition alloc_tx :: "tx_obj \<Rightarrow> store \<Rightarrow> addr \<times> store" where
  "alloc_tx obj st = (lim st, st\<lparr>txs := (txs st)(lim st := obj), lim := Suc (lim st)\<rparr>)"

subsection \<open>The transaction that a store holds at an address\<close>

fun read_seq :: "store \<Rightarrow> seq_ref \<Rightarrow> jsfield" where
  "read_seq st (Ref r) = Arr (arrays st r)"
| "read_seq st (Prim v) = Val v"

definition input_at :: "store \<Rightarrow> addr \<Rightarrow> TransactionIn" where
  "input_at st i =
     \<lparr> outpoint = \<lparr> hash = o_hash (inputs st i), index = o_index (inputs st i) \<rparr>,
       script = arrays st (o_script (inputs st i)),
       sequence = read_seq st (o_sequence (inputs st i)) \<rparr>"

definition output_at :: "store \<Rightarrow> addr \<Rightarrow> TransactionOut" where
  "output_at st x =
     \<lparr> out_value = o_value (outputs st x),
       out_script = arrays st (o_out_script (outputs st x)) \<rparr>"

definition tx_at :: "store \<Rightarrow> addr \<Rightarrow> Transaction" where
  "tx_at st a =
     \<lparr> version = o_version (txs st a), locktime = o_locktime (txs st a),
       ins = map (input_at st) (o_ins (txs st a)),
       outs = map (output_at st) (o_outs (txs st a)) \<rparr>"

text \<open>Every address that a transaction reaches is in use.\<close>

fun seq_ok :: "store \<Rightarrow> seq_ref \<Rightarrow> bool" where
  "seq_ok st (Ref r) = (r < lim st)"
| "seq_ok st (Prim v) = True"

definition in_ok :: "store \<Rightarrow> addr \<Rightarrow> bool" where
  "in_ok st i =
     (i < lim st \<and> o_script (inputs st i) < lim st \<and> seq_ok st (o_sequence (inputs st i)))"

definition out_ok :: "store \<Rightarrow> addr \<Rightarrow> bool" where
  "out_ok st x = (x < lim st \<and> o_out_script (outputs st x) < lim st)"

definition tx_ok :: "store \<Rightarrow> addr \<Rightarrow> bool" where
  "tx_ok st a =
     (a < lim st \<and> list_all (in_ok st) (o_ins (txs st a))
      \<and> list_all (out_ok st) (o_outs (txs st a)))"

subsection \<open>Construction\<close>

text \<open>
  Modelled from the spec: \<^verbatim>\<open>Script.prototype.clone\<close> (spec section 6, "deep-copy"): a new
  script with a new buffer of the same bytes. \<^verbatim>\<open>new Script()\<close> has a new empty buffer.
\<close>

definition Script_clone :: "addr \<Rightarrow> store \<Rightarrow> addr \<times> store" where
  "Script_clone s st = alloc_array (arrays st s) st"

definition new_Script :: "store \<Rightarrow> addr \<times> store" where
  "new_Script st = alloc_array [] st"

fun truthy_ref :: "seq_ref \<Rightarrow> bool" where
  "truthy_ref (Ref r) = True"
| "truthy_ref (Prim v) = truthy v"

text \<open>\<^verbatim>\<open>new Transaction()\<close> (lines 12-16): the array of line 16 is created with it.\<close>

definition new_Transaction_store :: "store \<Rightarrow> addr \<times> store" where
  "new_Transaction_store st =
     (let (d, st) = alloc_array defaultSequence st
      in alloc_tx \<lparr> o_version = 1, o_locktime = 0, o_ins = [], o_outs = [],
                    o_defaultSequence = d \<rparr> st)"

text \<open>\<^verbatim>\<open>this.ins.push(txin)\<close> and \<^verbatim>\<open>this.outs.push(txout)\<close> (lines 56, 89).\<close>

definition push_in :: "addr \<Rightarrow> addr \<Rightarrow> store \<Rightarrow> store" where
  "push_in a i st = st\<lparr>txs := (txs st)(a := (txs st a)\<lparr>o_ins := o_ins (txs st a) @ [i]\<rparr>)\<rparr>"

definition push_out :: "addr \<Rightarrow> addr \<Rightarrow> store \<Rightarrow> store" where
  "push_out a x st = st\<lparr>txs := (txs st)(a := (txs st a)\<lparr>o_outs := o_outs (txs st a) @ [x]\<rparr>)\<rparr>"

text \<open>\<^verbatim>\<open>addInput(hash, index)\<close> (lines 63-73): the new input refers to the array
  \<^verbatim>\<open>this.defaultSequence\<close> of the transaction.\<close>

definition addInput_hash_store :: "addr \<Rightarrow> string \<Rightarrow> jsval \<Rightarrow> store \<Rightarrow> store" where
  "addInput_hash_store a h outIndex st =
     (let (s, st) = new_Script st;
          (i, st) = alloc_in \<lparr> o_hash = h, o_index = outIndex, o_script = s,
                               o_sequence = Ref (o_defaultSequence (txs st a)) \<rparr> st
      in push_in a i st)"

subsection \<open>clone in the store (lines 225-240, 410-419, 439-445)\<close>

text \<open>
  \<^verbatim>\<open>TransactionIn.prototype.clone\<close>: the outpoint is a new object with the same hash and
  index, the script is cloned, and \<^verbatim>\<open>sequence: this.sequence\<close> passes the reference on
  (line 417); the constructor keeps it if it is truthy (line 407).
\<close>

definition TransactionIn_clone :: "addr \<Rightarrow> store \<Rightarrow> addr \<times> store" where
  "TransactionIn_clone i st =
     (let obj = inputs st i;
          (s, st) = Script_clone (o_script obj) st
      in alloc_in \<lparr> o_hash = o_hash obj, o_index = o_index obj, o_script = s,
                    o_sequence = (if truthy_ref (o_sequence obj) then o_sequence obj
                                  else Prim Undefined) \<rparr> st)"

text \<open>\<^verbatim>\<open>TransactionOut.prototype.clone\<close>: the script is cloned (line 441) and cloned again
  by the constructor (line 423).\<close>

definition TransactionOut_clone :: "addr \<Rightarrow> store \<Rightarrow> addr \<times> store" where
  "TransactionOut_clone x st =
     (let obj = outputs st x;
          (s1, st) = Script_clone (o_out_script obj) st;
          (s2, st) = Script_clone s1 st
      in alloc_out \<lparr> o_value = o_value obj, o_out_script = s2 \<rparr> st)"

fun clone_ins :: "addr \<Rightarrow> addr list \<Rightarrow> store \<Rightarrow> store" where
  "clone_ins n [] st = st"
| "clone_ins n (i # is) st =
     (let (i', st) = TransactionIn_clone i st in clone_ins n is (push_in n i' st))"

fun clone_outs :: "addr \<Rightarrow> addr list \<Rightarrow> store \<Rightarrow> store" where
  "clone_outs n [] st = st"
| "clone_outs n (x # xs) st =
     (let (x', st) = TransactionOut_clone x st in clone_outs n xs (push_out n x' st))"

definition Transaction_clone :: "addr \<Rightarrow> store \<Rightarrow> addr \<times> store" where
  "Transaction_clone a st =
     (let (newTx, st1) = new_Transaction_store st;
          st2 = st1\<lparr>txs := (txs st1)(newTx := (txs st1 newTx)\<lparr>o_version := o_version (txs st a)\<rparr>)\<rparr>;
          st3 = st2\<lparr>txs := (txs st2)(newTx := (txs st2 newTx)\<lparr>o_locktime := o_locktime (txs st a)\<rparr>)\<rparr>;
          st4 = clone_ins newTx (o_ins (txs st a)) st3;
          st5 = clone_outs newTx (o_outs (txs st a)) st4
      in (newTx, st5))"

subsection \<open>hashTransactionForSignature in the store (lines 164-209)\<close>

text \<open>Assignments to a property of an input: \<^verbatim>\<open>txin.script = s\<close>,
  \<^verbatim>\<open>txin.sequence = v\<close>.\<close>

definition set_script :: "addr \<Rightarrow> addr \<Rightarrow> store \<Rightarrow> store" where
  "set_script i s st = st\<lparr>inputs := (inputs st)(i := (inputs st i)\<lparr>o_script := s\<rparr>)\<rparr>"

definition set_sequence :: "addr \<Rightarrow> seq_ref \<Rightarrow> store \<Rightarrow> store" where
  "set_sequence i q st = st\<lparr>inputs := (inputs st)(i := (inputs st i)\<lparr>o_sequence := q\<rparr>)\<rparr>"

text \<open>Lines 177-179: every input of \<^verbatim>\<open>txTmp\<close> gets a new empty script.\<close>

fun blank_scripts :: "addr list \<Rightarrow> store \<Rightarrow> store" where
  "blank_scripts [] st = st"
| "blank_scripts (i # is) st = (let (s, st) = new_Script st in blank_scripts is (set_script i s st))"

text \<open>Lines 188-192: the sequence of every input but the one at \<^verbatim>\<open>inIndex\<close> becomes the
  number 0; \<open>k\<close> is the index of the first input of the list.\<close>

fun zero_sequences :: "nat \<Rightarrow> nat \<Rightarrow> addr list \<Rightarrow> store \<Rightarrow> store" where
  "zero_sequences inIndex k [] st = st"
| "zero_sequences inIndex k (i # is) st =
     zero_sequences inIndex (Suc k) is
       (if k \<noteq> inIndex then set_sequence i (Prim (Num 0)) st else st)"

definition hashTransactionForSignature_store ::
  "(jsval list \<Rightarrow> jsval list) \<Rightarrow> addr \<Rightarrow> addr \<Rightarrow> nat \<Rightarrow> nat \<Rightarrow> store
     \<Rightarrow> (error + jsval list) \<times> store" where
  "hashTransactionForSignature_store sha256d this connectedScript inIndex hashType st =
     (let (txTmp, st) = Transaction_clone this st;
          st = blank_scripts (o_ins (txs st txTmp)) st
      in if length (o_ins (txs st txTmp)) \<le> inIndex then (Inl TypeError, st)
         else
           (let st = set_script (o_ins (txs st txTmp) ! inIndex) connectedScript st;
                st = (if hashType AND 0x1f = SIGHASH_NONE
                      then (let st = st\<lparr>txs := (txs st)(txTmp := (txs st txTmp)\<lparr>o_outs := []\<rparr>)\<rparr>
                            in zero_sequences inIndex 0 (o_ins (txs st txTmp)) st)
                      else if hashType AND 0x1f = SIGHASH_SINGLE then st
                      else st);
                st = (if hashType AND SIGHASH_ANYONECANPAY \<noteq> 0
                      then st\<lparr>txs := (txs st)(txTmp := (txs st txTmp)
                                \<lparr>o_ins := [o_ins (txs st txTmp) ! inIndex]\<rparr>)\<rparr>
                      else st);
                buffer = serialize (tx_at st txTmp);
                buffer = buffer @ numToBytes (parseInt (Num hashType)) 4
            in (Inr (sha256d buffer), st)))"

text \<open>A store with the golden-vector transaction, built as a caller builds it: the
  transaction is at address 1, its input at address 3.\<close>

definition example_store :: store where
  "example_store =
     (let (a, st) = new_Transaction_store empty_store
      in addInput_hash_store a example_hash (Num 0) st)"

text \<open>\<^verbatim>\<open>array[k] = v\<close> on the array at an address; an index past the end extends the
  array, the elements in between reading as undefined.\<close>

definition array_set :: "addr \<Rightarrow> nat \<Rightarrow> jsval \<Rightarrow> store \<Rightarrow> store" where
  "array_set r k v st =
     (let xs = arrays st r;
          ys = (if k < length xs then xs[k := v]
                else xs @ replicate (k - length xs) Undefined @ [v])
      in st\<lparr>arrays := (arrays st)(r := ys)\<rparr>)"

subsection \<open>The effect of the loops\<close>

text \<open>
  What the loops of \<^verbatim>\<open>clone\<close> and of \<^verbatim>\<open>hashTransactionForSignature\<close> leave in the store,
  stated once for each loop: which parts of the store are as before, and what the new or
  assigned objects hold.
\<close>

definition ins_cloned :: "addr \<Rightarrow> addr list \<Rightarrow> store \<Rightarrow> store \<Rightarrow> addr list \<Rightarrow> bool" where
  "ins_cloned n is st st' new =
     (txs st' = (txs st)(n := (txs st n)\<lparr>o_ins := o_ins (txs st n) @ new\<rparr>)
      \<and> outputs st' = outputs st
      \<and> lim st \<le> lim st'
      \<and> (\<forall>x<lim st. arrays st' x = arrays st x \<and> inputs st' x = inputs st x)
      \<and> list_all (\<lambda>i'. lim st \<le> i' \<and> in_ok st' i') new
      \<and> distinct new
      \<and> map (input_at st') new = map (\<lambda>i. clone_in (input_at st i)) is)"

definition outs_cloned :: "addr \<Rightarrow> addr list \<Rightarrow> store \<Rightarrow> store \<Rightarrow> addr list \<Rightarrow> bool" where
  "outs_cloned n xs st st' new =
     (txs st' = (txs st)(n := (txs st n)\<lparr>o_outs := o_outs (txs st n) @ new\<rparr>)
      \<and> inputs st' = inputs st
      \<and> lim st \<le> lim st'
      \<and> (\<forall>x<lim st. arrays st' x = arrays st x \<and> outputs st' x = outputs st x)
      \<and> list_all (\<lambda>x'. lim st \<le> x' \<and> out_ok st' x') new
      \<and> map (output_at st') new = map (output_at st) xs)"

text \<open>Every object below an address is as it was.\<close>

definition unchanged_below :: "addr \<Rightarrow> store \<Rightarrow> store \<Rightarrow> bool" where
  "unchanged_below L st st' =
     (\<forall>x<L. arrays st' x = arrays st x \<and> inputs st' x = inputs st x
            \<and> outputs st' x = outputs st x \<and> txs st' x = txs st x)"

definition clone_result :: "store \<Rightarrow> addr \<Rightarrow> addr \<Rightarrow> store \<Rightarrow> bool" where
  "clone_result st a c st' =
     (lim st \<le> c \<and> lim st \<le> lim st' \<and> unchanged_below (lim st) st st'
      \<and> tx_at st' c = clone (tx_at st a)
      \<and> distinct (o_ins (txs st' c))
      \<and> list_all (\<lambda>i. lim st \<le> i \<and> in_ok st' i) (o_ins (txs st' c))
      \<and> list_all (out_ok st') (o_outs (txs st' c)))"

text \<open>The store after lines 227-229 of \<^verbatim>\<open>clone\<close>: the new transaction with the version
  and the locktime assigned.\<close>

definition fresh_tx :: "addr \<Rightarrow> store \<Rightarrow> store" where
  "fresh_tx a st =
     st\<lparr>arrays := (arrays st)(lim st := defaultSequence),
        lim := Suc (Suc (lim st)),
        txs := (txs st)(Suc (lim st) :=
                 \<lparr> o_version = o_version (txs st a), o_locktime = o_locktime (txs st a),
                   o_ins = [], o_outs = [], o_defaultSequence = lim st \<rparr>)\<rparr>"

definition scripts_blanked :: "addr list \<Rightarrow> store \<Rightarrow> store \<Rightarrow> bool" where
  "scripts_blanked is st st' =
     (txs st' = txs st \<and> outputs st' = outputs st \<and> lim st \<le> lim st'
      \<and> (\<forall>x<lim st. arrays st' x = arrays st x)
      \<and> (\<forall>j. j \<notin> set is \<longrightarrow> inputs st' j = inputs st j)
      \<and> map (input_at st') is = map (\<lambda>j. (input_at st j)\<lparr>script := []\<rparr>) is
      \<and> list_all (in_ok st') is)"

text \<open>One pass of the loop of lines 177-179.\<close>

definition blank_one :: "addr \<Rightarrow> store \<Rightarrow> store" where
  "blank_one i st =
     st\<lparr>arrays := (arrays st)(lim st := []), lim := Suc (lim st),
        inputs := (inputs st)(i := (inputs st i)\<lparr>o_script := lim st\<rparr>)\<rparr>"

text \<open>One pass of the loop of lines 188-192, on the store and on the input it reads.\<close>

definition zero_step :: "nat \<Rightarrow> nat \<Rightarrow> addr \<Rightarrow> store \<Rightarrow> store" where
  "zero_step inIndex k i st = (if k \<noteq> inIndex then set_sequence i (Prim (Num 0)) st else st)"

definition zero_seq :: "nat \<Rightarrow> nat \<times> TransactionIn \<Rightarrow> TransactionIn" where
  "zero_seq inIndex = (\<lambda>(i, txin). if i \<noteq> inIndex then txin\<lparr>sequence := Val (Num 0)\<rparr> else txin)"

definition sequences_zeroed :: "nat \<Rightarrow> nat \<Rightarrow> addr list \<Rightarrow> store \<Rightarrow> store \<Rightarrow> bool" where
  "sequences_zeroed inIndex k is st st' =
     (arrays st' = arrays st \<and> txs st' = txs st \<and> outputs st' = outputs st \<and> lim st' = lim st
      \<and> (\<forall>j. j \<notin> set is \<longrightarrow> inputs st' j = inputs st j)
      \<and> map (input_at st') is = map (zero_seq inIndex) (enumerate k (map (input_at st) is)))"

section \<open>Numbers that \<^verbatim>\<open>parseInt\<close> gives back\<close>

lemma decimal_length_le: "n < 10 ^ k \<Longrightarrow> 0 < k \<Longrightarrow> decimal_length n \<le> k"
proof (induction k arbitrary: n)
  case 0 then show ?case by simp
next
  case (Suc k)
  show ?case
  proof (cases "n < 10")
    case True then show ?thesis by (simp add: decimal_length.simps [of n])
  next
    case False
    with Suc.prems have k: "0 < k" by (cases k) auto
    from Suc.prems have "n div 10 < 10 ^ k" by (simp add: less_mult_imp_div_less mult.commute)
    from Suc.IH [OF this k] False show ?thesis by (simp add: decimal_length.simps [of n])
  qed
qed

lemma parseInt_Num [simp]: "n < 1000000000000000000000 \<Longrightarrow> parseInt (Num n) = Num n"
proof -
  assume "n < 1000000000000000000000"
  then have "n < 10 ^ 21" by simp
  from decimal_length_le [OF this] show ?thesis by simp
qed

declare parseInt.simps(1) [simp del]

lemma parseInt_1e21: "parseInt (Num 1000000000000000000000) = Num 1"
  by (simp add: parseInt.simps(1) decimal_length.simps binary_length.simps exponent_head_def)

section \<open>Structure of the constructors and of clone\<close>

lemma foldl_addInput:
  "foldl (\<lambda>t x. addInput t (f x)) t xs = t\<lparr>ins := ins t @ map f xs\<rparr>"
  by (induction xs arbitrary: t) (simp_all add: addInput_def)

lemma foldl_addOutput:
  "foldl (\<lambda>t x. addOutput t (f x)) t xs = t\<lparr>outs := outs t @ map f xs\<rparr>"
  by (induction xs arbitrary: t) (simp_all add: addOutput_def)

lemma clone_eq:
  "clone tx = \<lparr> version = version tx, locktime = locktime tx,
               ins = map clone_in (ins tx), outs = map clone_out (outs tx) \<rparr>"
  by (simp add: clone_def foldl_addInput foldl_addOutput empty_Transaction_def)

lemma new_Transaction_eq:
  "new_Transaction d =
     \<lparr> version = (case doc_version d of Num v \<Rightarrow> if v \<noteq> 0 then v else 1 | _ \<Rightarrow> 1),
       locktime = (case doc_locktime d of Num l \<Rightarrow> if l \<noteq> 0 then l else 0 | _ \<Rightarrow> 0),
       ins = map new_TransactionIn (doc_ins d),
       outs = map new_TransactionOut (doc_outs d) \<rparr>"
  by (simp add: new_Transaction_def foldl_addInput foldl_addOutput empty_Transaction_def
           split: jsval.splits)

lemma clone_out_id: "clone_out txout = txout"
  by (simp add: clone_out_def new_TransactionOut_def)

lemmas sighash_consts =
  SIGHASH_ALL_def SIGHASH_NONE_def SIGHASH_SINGLE_def SIGHASH_ANYONECANPAY_def

lemmas example_defs = example_tx2_def example_tx_def example_hash_def addInput_hash_def
  addOutput_def addInput_def empty_Transaction_def new_TransactionIn_def defaultSequence_def

lemma ins_example_tx:
  "ins example_tx = [\<lparr> outpoint = \<lparr> hash = example_hash, index = Num 0 \<rparr>, script = [],
                       sequence = Arr defaultSequence \<rparr>]"
  by (simp add: example_tx_def addInput_hash_def addOutput_def empty_Transaction_def
        new_TransactionIn_def)

lemma ins_example_tx2:
  "ins example_tx2 = [\<lparr> outpoint = \<lparr> hash = example_hash, index = Num 0 \<rparr>, script = [],
                        sequence = Arr defaultSequence \<rparr>,
                      \<lparr> outpoint = \<lparr> hash = example_hash, index = Num 1 \<rparr>, script = [],
                        sequence = Arr defaultSequence \<rparr>]"
  by (simp add: example_tx2_def ins_example_tx addInput_hash_def new_TransactionIn_def)

section \<open>The SINGLE hash type\<close>

lemma signature_txTmp_single:
  "signature_txTmp tx connectedScript inIndex 3 = signature_txTmp tx connectedScript inIndex 1"
  by (simp add: signature_txTmp_def sighash_consts Let_def)

lemma leBytes_3: "leBytes 3 4 = [Num 3, Num 0, Num 0, Num 0]"
  by code_simp

text \<open>
  Claim C4 says that a hash type whose low five bits are 3 (SINGLE) raises NotImplemented.
  The code does not: the branch of lines 194-196 holds only the comment
  \<^verbatim>\<open>// TODO: Implement\<close>. The clone that is hashed for hash type 3 is the clone that is
  hashed for hash type 1 (ALL), and for every input index of the transaction a digest is
  returned: the digest of that clone's serialization followed by the bytes 3, 0, 0, 0.
\<close>

theorem sighash_single_falls_through:
  "signature_txTmp tx connectedScript inIndex 3 = signature_txTmp tx connectedScript inIndex 1
   \<and> (inIndex < length (ins tx) \<longrightarrow>
        (\<exists>txTmp. signature_txTmp tx connectedScript inIndex 1 = Inr txTmp
           \<and> hashTransactionForSignature sha256d tx connectedScript inIndex 3
               = Inr (sha256d (serialize txTmp @ [Num 3, Num 0, Num 0, Num 0]))))"
  unfolding hashTransactionForSignature_def signature_buffer_def signature_txTmp_single
  by (simp add: signature_txTmp_def sighash_consts Let_def clone_eq leBytes_3)

theorem sighash_single_falls_through_witness:
  "(0::nat) < length (ins example_tx) \<and>
   (\<exists>d. hashTransactionForSignature (\<lambda>b. b) example_tx [] 0 3 = Inr d)"
  using sighash_single_falls_through [of example_tx "[]" 0 "\<lambda>b. b"]
  by (auto simp add: ins_example_tx)

section \<open>The ANYONECANPAY flag\<close>

lemma signature_txTmp_0x81_length:
  assumes "inIndex < length (ins tx)"
  shows "case signature_txTmp tx connectedScript inIndex 0x81 of
           Inr txTmp \<Rightarrow> length (ins txTmp) = length (ins tx) | Inl e \<Rightarrow> False"
proof -
  have n: "(0x81::nat) AND 0x1f = 1" "(0x81::nat) AND 80 = 0" by simp_all
  show ?thesis using assms
    by (simp add: signature_txTmp_def Let_def clone_eq sighash_consts n)
qed

text \<open>
  Claim C1 says that a hash type with bit 0x80 set is hashed over a clone holding only the
  input being signed, so that appending an input leaves the hash for ALL|0x80 unchanged.
  The code tests \<^verbatim>\<open>hashType & SIGHASH_ANYONECANPAY\<close> with the constant 80 (decimal, bits
  0x40 and 0x10), not 0x80. For hash type 0x81 the test is 0: the clone of the two-input
  transaction keeps both inputs, and the buffer that is hashed differs from the buffer
  for the same transaction before the second input was appended.
\<close>

theorem anyonecanpay_0x81_keeps_other_inputs:
  "signature_buffer example_tx [] 0 0x81 \<noteq> signature_buffer example_tx2 [] 0 0x81
   \<and> (case signature_txTmp example_tx2 [] 0 0x81 of
          Inr txTmp \<Rightarrow> length (ins txTmp) = 2 | Inl e \<Rightarrow> False)"
  by code_simp

section \<open>The NONE hash type\<close>

lemma length_leBytes [simp]: "length (leBytes n k) = k"
  by (induction k arbitrary: n) simp_all

text \<open>
  Claim C6 says that for hash type NONE the clone has no outputs and every other input
  has sequence 0, serialized as that input's four-byte sequence field. The code assigns
  the number 0 (line 190), not four zero bytes, and \<^verbatim>\<open>buffer.concat(0)\<close> in
  \<^verbatim>\<open>serialize\<close> appends one element: every other input is serialized as its reversed
  hash, its index, the length 0 of its blanked script, and a single 0 for the sequence.
\<close>

theorem sighash_none_sequence_is_one_element:
  assumes "signature_txTmp tx connectedScript inIndex 2 = Inr txTmp"
      and "j < length (ins tx)" and "j \<noteq> inIndex"
  shows "outs txTmp = []
       \<and> sequence (ins txTmp ! j) = Val (Num 0)
       \<and> serialize_in buffer (ins txTmp ! j)
           = buffer @ rev (hexToBytes (hash (outpoint (ins tx ! j))))
               @ numToBytes (parseInt (index (outpoint (ins tx ! j)))) 4 @ [Num 0] @ [Num 0]"
proof -
  have n: "(2::nat) AND 0x1f = 2" "(2::nat) AND 80 = 0" by simp_all
  from assms(1) have lt: "inIndex < length (ins tx)"
    by (simp add: signature_txTmp_def Let_def clone_eq split: if_splits)
  let ?xs = "(map (\<lambda>txin. txin\<lparr>script := []\<rparr>) (map clone_in (ins tx)))
               [inIndex := (map (\<lambda>txin. txin\<lparr>script := []\<rparr>) (map clone_in (ins tx)) ! inIndex)
                   \<lparr>script := connectedScript\<rparr>]"
  from assms(1) lt have t: "txTmp = \<lparr> version = version tx, locktime = locktime tx,
      ins = map (\<lambda>(i, txin). if i \<noteq> inIndex then txin\<lparr>sequence := Val (Num 0)\<rparr> else txin)
              (enumerate 0 ?xs), outs = [] \<rparr>"
    by (simp add: signature_txTmp_def Let_def clone_eq sighash_consts n)
  have len: "j < length ?xs" using assms(2) by simp
  have nth: "ins txTmp ! j = (?xs ! j)\<lparr>sequence := Val (Num 0)\<rparr>"
    unfolding t using len assms(3) by (simp add: nth_enumerate_eq)
  have xj: "?xs ! j = (clone_in (ins tx ! j))\<lparr>script := []\<rparr>"
    using assms(2,3) by simp
  show ?thesis
    unfolding nth xj
    by (simp add: t serialize_in_def clone_in_def new_TransactionIn_def numToVarInt_def)
qed

theorem sighash_none_sequence_is_one_element_witness:
  "(\<exists>txTmp. signature_txTmp example_tx2 [] 0 2 = Inr txTmp \<and> (1::nat) < length (ins example_tx2)
      \<and> (1::nat) \<noteq> 0 \<and> sequence (ins txTmp ! 1) = Val (Num 0)
      \<and> length (serialize_in [] (ins txTmp ! 1)) = 38)"
proof -
  obtain txTmp where t: "signature_txTmp example_tx2 [] 0 2 = Inr txTmp"
    by (simp add: signature_txTmp_def Let_def clone_eq ins_example_tx2)
  have l: "(1::nat) < length (ins example_tx2)" by (simp add: ins_example_tx2)
  have h: "length (hexToBytes example_hash) = 32" by code_simp
  from sighash_none_sequence_is_one_element [OF t l, of "[]"]
  show ?thesis using t l by (simp add: ins_example_tx2 h)
qed

section \<open>The default sequence\<close>

lemma addInput_hash_sequence:
  "sequence (last (ins (addInput_hash tx h outIndex))) = Arr defaultSequence"
  by (simp add: addInput_hash_def new_TransactionIn_def)

text \<open>
  Claim C7 says that an input built without a sequence has the sequence 0xFFFFFFFF, by
  \<^verbatim>\<open>addInput\<close> and by the constructor alike. \<^verbatim>\<open>addInput\<close> passes the transaction's
  \<^verbatim>\<open>defaultSequence\<close> (lemma \<open>addInput_hash_sequence\<close>). The constructor falls back on
  \<^verbatim>\<open>this.defaultSequence\<close> (line 407) of the new input, which nothing sets: an input
  constructed from an outpoint alone has the sequence undefined.
\<close>

theorem TransactionIn_without_sequence:
  "sequence (new_TransactionIn \<lparr> d_outpoint = op, d_script = s, d_sequence = Val Undefined \<rparr>)
     = Val Undefined
   \<and> sequence (new_TransactionIn \<lparr> d_outpoint = op, d_script = s, d_sequence = Val Undefined \<rparr>)
     \<noteq> Arr defaultSequence"
  by (simp add: new_TransactionIn_def)

section \<open>Hexadecimal strings\<close>

lemma hexVal_char:
  "(m::nat) < 16 \<Longrightarrow> hexVal (char_of (if m < 10 then 48 + m else 87 + m)) = Some m"
  by (auto simp: hexVal_def Let_def)

lemma lower_hex_char:
  "(m::nat) < 16 \<Longrightarrow> lower_hex (char_of (if m < 10 then 48 + m else 87 + m))"
  by (auto simp: lower_hex_def Let_def)

lemma hexVal_hexDigit: "hexVal (hexDigit d) = Some (d mod 16)"
  unfolding hexDigit_def Let_def by (rule hexVal_char) simp

lemma lower_hex_hexDigit: "lower_hex (hexDigit d)"
  unfolding hexDigit_def Let_def by (rule lower_hex_char) simp

lemma hexDigit_hexVal:
  assumes "lower_hex c"
  shows "\<exists>v<16. hexVal c = Some v \<and> hexDigit v = c"
proof -
  define n where "n = (of_char c :: nat)"
  have c: "char_of n = c" by (simp add: n_def)
  from assms consider "48 \<le> n \<and> n \<le> 57" | "97 \<le> n \<and> n \<le> 102"
    by (auto simp: lower_hex_def Let_def n_def)
  then show ?thesis
  proof cases
    case 1
    then have v: "n - 48 < 10" and m: "(n - 48) mod 16 = n - 48" and k: "48 + (n - 48) = n"
      by auto
    from 1 have "hexVal c = Some (n - 48)"
      by (simp add: hexVal_def Let_def n_def [symmetric])
    moreover have "hexDigit (n - 48) = c"
      using c v by (simp add: hexDigit_def Let_def m k)
    ultimately show ?thesis using v by (intro exI [of _ "n - 48"]) simp
  next
    case 2
    then have v: "\<not> n - 87 < 10" "n - 87 < 16" and m: "(n - 87) mod 16 = n - 87"
      and k: "87 + (n - 87) = n"
      by auto
    from 2 have "hexVal c = Some (n - 87)"
      by (simp add: hexVal_def Let_def n_def [symmetric])
    moreover have "hexDigit (n - 87) = c"
      using c v by (simp add: hexDigit_def Let_def m k)
    ultimately show ?thesis using v by (intro exI [of _ "n - 87"]) simp
  qed
qed


lemma hexToBytes_Cons2:
  "hexVal c = Some h \<Longrightarrow> hexVal d = Some l \<Longrightarrow>
   hexToBytes (c # d # cs) = Num (16 * h + l) # hexToBytes cs"
  by simp

lemma bytesToHex_Cons: "bytesToHex (Num n # bs) = hexDigit (n div 16) # hexDigit n # bytesToHex bs"
  by (simp add: bytesToHex_def)

lemma hexToBytes_bytesToHex: "bytes bs \<Longrightarrow> hexToBytes (bytesToHex bs) = bs"
proof (induction bs)
  case Nil
  then show ?case by (simp add: bytesToHex_def)
next
  case (Cons b bs)
  then obtain n where b: "b = Num n" "n < 256"
    by (cases b) (simp_all add: bytes_def is_byte_def)
  have "n div 16 < 16" using b(2) by (simp add: div_less_iff_less_mult)
  then have ar: "16 * (n div 16 mod 16) + n mod 16 = n" by simp
  from Cons have ih: "hexToBytes (bytesToHex bs) = bs" by (simp add: bytes_def)
  show ?case
    unfolding b(1) bytesToHex_Cons
    by (simp only: hexToBytes_Cons2 [OF hexVal_hexDigit hexVal_hexDigit] ar ih)
qed

lemma length_hexToBytes: "length (hexToBytes h) = length h div 2"
  by (induction h rule: hexToBytes.induct) simp_all

lemma lower_hex_bytesToHex: "bytes bs \<Longrightarrow> list_all lower_hex (bytesToHex bs)"
proof (induction bs)
  case Nil
  then show ?case by (simp add: bytesToHex_def)
next
  case (Cons b bs)
  then obtain n where b: "b = Num n"
    by (cases b) (simp_all add: bytes_def is_byte_def)
  from Cons show ?case unfolding b bytesToHex_Cons
    by (simp add: lower_hex_hexDigit bytes_def)
qed

lemma length_bytesToHex: "bytes bs \<Longrightarrow> length (bytesToHex bs) = 2 * length bs"
proof (induction bs)
  case Nil
  then show ?case by (simp add: bytesToHex_def)
next
  case (Cons b bs)
  then obtain n where b: "b = Num n"
    by (cases b) (simp_all add: bytes_def is_byte_def)
  from Cons show ?case unfolding b bytesToHex_Cons
    by (simp add: bytes_def)
qed


lemma hexDigit_low: "w < 16 \<Longrightarrow> hexDigit (16 * v + w) = hexDigit w"
  by (simp add: hexDigit_def)

lemma hexDigit_high: "w < 16 \<Longrightarrow> hexDigit ((16 * v + w) div 16) = hexDigit v"
  by (simp add: hexDigit_def)

lemma bytesToHex_hexToBytes:
  "list_all lower_hex h \<Longrightarrow> even (length h) \<Longrightarrow> bytesToHex (hexToBytes h) = h"
proof (induction h rule: hexToBytes.induct)
  case (1 c d cs)
  from 1(2) have "lower_hex c" "lower_hex d" by simp_all
  then obtain v w where v: "v < 16" "hexVal c = Some v" "hexDigit v = c"
    and w: "w < 16" "hexVal d = Some w" "hexDigit w = d"
    using hexDigit_hexVal by blast
  from 1 have ih: "bytesToHex (hexToBytes cs) = cs" by simp
  show ?case
    unfolding hexToBytes_Cons2 [OF v(2) w(2)] bytesToHex_Cons
    by (simp only: hexDigit_low [OF w(1)] hexDigit_high [OF w(1)] v(3) w(3) ih)
qed (simp_all add: bytesToHex_def)

section \<open>The readers of deserialize on serialized fields\<close>

lemma elem_drop: "drop p buffer = x # rest \<Longrightarrow> elem buffer (Num p) = x"
proof -
  assume d: "drop p buffer = x # rest"
  then have "p < length buffer" by (cases "p < length buffer") simp_all
  moreover from d have "buffer ! p = x" by (metis nth_via_drop)
  ultimately show ?thesis by simp
qed

lemma drop_Suc_tl: "drop p buffer = x # rest \<Longrightarrow> drop (Suc p) buffer = rest"
  by (metis drop_Suc tl_drop list.sel(3))

lemma drop_after: "drop p buffer = xs @ post \<Longrightarrow> drop (p + length xs) buffer = post"
proof -
  assume d: "drop p buffer = xs @ post"
  have "drop (p + length xs) buffer = drop (length xs) (drop p buffer)"
    by (simp add: add.commute)
  then show ?thesis using d by simp
qed

lemma readAsInt_leBytes:
  "drop p buffer = leBytes n k @ post \<Longrightarrow>
   readAsInt buffer k (Num p) = (Num (n mod 256 ^ k), Num (p + k))"
proof (induction k arbitrary: n p)
  case 0
  then show ?case by simp
next
  case (Suc k)
  from Suc.prems have d: "drop p buffer = Num (n mod 256) # (leBytes (n div 256) k @ post)"
    by simp
  have e: "elem buffer (Num p) = Num (n mod 256)" by (rule elem_drop [OF d])
  have d': "drop (Suc p) buffer = leBytes (n div 256) k @ post" by (rule drop_Suc_tl [OF d])
  have ar: "n mod 256 + (n div 256) mod 256 ^ k * 256 = n mod 256 ^ Suc k"
    by (simp add: mod_mult2_eq)
  show ?case using Suc.IH [OF d'] e ar by simp
qed

lemma readAsInt_pos: "snd (readAsInt buffer k (Num p)) = Num (p + k)"
  by (induction k arbitrary: p) (simp_all add: split_def Let_def)

lemma readAsInt_Suc:
  "readAsInt buffer (Suc k) pos =
     (js_add (elem buffer pos) (js_mul (fst (readAsInt buffer k (js_inc pos))) (Num 256)),
      snd (readAsInt buffer k (js_inc pos)))"
  by (simp add: split_def Let_def)

lemma readAsInt_short:
  "length buffer < p + Suc k \<Longrightarrow> fst (readAsInt buffer (Suc k) (Num p)) = NaN"
proof (induction k arbitrary: p)
  case 0
  then show ?case by simp
next
  case (Suc k)
  show ?case
  proof (cases "p < length buffer")
    case True
    with Suc.prems have "length buffer < Suc p + Suc k" by simp
    from Suc.IH [OF this] show ?thesis
      by (subst readAsInt_Suc) (simp del: readAsInt.simps)
  next
    case False
    then show ?thesis
      by (subst readAsInt_Suc) (simp del: readAsInt.simps)
  qed
qed

lemma readVarInt_numToVarInt:
  assumes "drop p buffer = numToVarInt n @ post" and "n < 65536"
  shows "readVarInt buffer (Num p) = Inr (Num n, Num (p + length (numToVarInt n)))"
proof (cases "n < 253")
  case True
  with assms(1) have "drop p buffer = Num n # post" by (simp add: numToVarInt_def)
  from elem_drop [OF this] True show ?thesis by (simp add: readVarInt_def numToVarInt_def)
next
  case False
  with assms have d: "drop p buffer = Num 253 # (leBytes n 2 @ post)"
    by (simp add: numToVarInt_def)
  have r: "readAsInt buffer 2 (Num (Suc p)) = (Num (n mod 256 ^ 2), Num (Suc p + 2))"
    by (rule readAsInt_leBytes [OF drop_Suc_tl [OF d]])
  have m: "n mod 256 ^ 2 = n" using assms(2) by simp
  have two: "(253::nat) - 251 = 2" by simp
  show ?thesis using elem_drop [OF d] r False assms(2)
    by (simp add: readVarInt_def numToVarInt_def m two del: readAsInt.simps)
qed

lemma readBytes_drop:
  "drop p buffer = xs @ post \<Longrightarrow> n = length xs \<Longrightarrow>
   readBytes buffer (Num n) (Num p) = (xs, Num (p + length xs))"
  by simp

lemma readVarString_drop:
  assumes "drop p buffer = numToVarInt (length s) @ s @ post" and "length s < 65536"
  shows "readVarString buffer (Num p)
           = Inr (s, Num (p + length (numToVarInt (length s)) + length s))"
proof -
  have v: "readVarInt buffer (Num p)
             = Inr (Num (length s), Num (p + length (numToVarInt (length s))))"
    by (rule readVarInt_numToVarInt [OF assms])
  have d: "drop (p + length (numToVarInt (length s))) buffer = s @ post"
    by (rule drop_after [OF assms(1)])
  show ?thesis unfolding readVarString_def v using readBytes_drop [OF d refl] by simp
qed

lemma bytesToNum_leBytes: "bytesToNum (leBytes n k) = Num (n mod 256 ^ k)"
proof (induction k arbitrary: n)
  case 0
  then show ?case by simp
next
  case (Suc k)
  have "n mod 256 + 256 * (n div 256 mod 256 ^ k) = n mod 256 ^ Suc k"
    by (simp add: mod_mult2_eq)
  then show ?case by (simp add: Suc.IH)
qed

section \<open>Inputs and outputs read back\<close>

lemma serialize_in_append: "serialize_in buffer txin = buffer @ serialize_in [] txin"
  by (cases "sequence txin") (simp_all add: serialize_in_def Let_def)

lemma serialize_out_append: "serialize_out buffer txout = buffer @ serialize_out [] txout"
  by (simp add: serialize_out_def Let_def)

lemma foldl_serialize_in:
  "foldl serialize_in buffer xs = buffer @ concat (map (serialize_in []) xs)"
proof (induction xs arbitrary: buffer)
  case Nil
  then show ?case by simp
next
  case (Cons x xs)
  show ?case by (simp add: Cons.IH serialize_in_append [of buffer x])
qed

lemma foldl_serialize_out:
  "foldl serialize_out buffer xs = buffer @ concat (map (serialize_out []) xs)"
proof (induction xs arbitrary: buffer)
  case Nil
  then show ?case by simp
next
  case (Cons x xs)
  show ?case by (simp add: Cons.IH serialize_out_append [of buffer x])
qed

lemma wf_in_serialize:
  assumes "wf_in txin"
  obtains h i s q where
    "outpoint txin = \<lparr> hash = h, index = Num i \<rparr>" "script txin = s" "sequence txin = Arr q"
    "display_hex h" "i < 2 ^ 32" "length s < 65536" "length q = 4"
    "serialize_in [] txin = rev (hexToBytes h) @ leBytes i 4 @ numToVarInt (length s) @ s @ q"
proof -
  from assms obtain i where i: "index (outpoint txin) = Num i" "i < 2 ^ 32"
    by (cases "index (outpoint txin)") (simp_all add: wf_in_def)
  from assms obtain q where q: "sequence txin = Arr q" "length q = 4"
    by (cases "sequence txin") (simp_all add: wf_in_def)
  have o: "outpoint txin = \<lparr> hash = hash (outpoint txin), index = Num i \<rparr>"
    using i(1) by (cases "outpoint txin") simp
  have s: "serialize_in [] txin = rev (hexToBytes (hash (outpoint txin))) @ leBytes i 4
             @ numToVarInt (length (script txin)) @ script txin @ q"
    using i(2) by (simp add: serialize_in_def Let_def i(1) q(1))
  from assms have "display_hex (hash (outpoint txin))" "length (script txin) < 65536"
    by (simp_all add: wf_in_def)
  with that [OF o refl q(1) _ i(2) _ q(2) s] show thesis by blast
qed

lemma read_in_serialize_in:
  assumes wf: "wf_in txin" and d: "drop p buffer = serialize_in [] txin @ post"
  shows "read_in buffer (Num p) = Inr (data_of txin, Num (p + length (serialize_in [] txin)))"
proof -
  from wf obtain h i s q where
    o: "outpoint txin = \<lparr> hash = h, index = Num i \<rparr>" and sc: "script txin = s"
    and sq: "sequence txin = Arr q"
    and h: "display_hex h" and i: "i < 2 ^ 32" and s: "length s < 65536" and q: "length q = 4"
    and ser: "serialize_in [] txin
                = rev (hexToBytes h) @ leBytes i 4 @ numToVarInt (length s) @ s @ q"
    by (rule wf_in_serialize)
  let ?H = "rev (hexToBytes h)"
  let ?V = "numToVarInt (length s)"
  have lh: "length ?H = 32" using h by (simp add: display_hex_def length_hexToBytes)
  have hh: "bytesToHex (hexToBytes h) = h" using h by (simp add: display_hex_def bytesToHex_hexToBytes)
  have d0: "drop p buffer = ?H @ (leBytes i 4 @ ?V @ s @ q @ post)"
    using d ser by simp
  have r1: "readBytes buffer (Num 32) (Num p) = (?H, Num (p + 32))"
    using readBytes_drop [OF d0] lh by simp
  have d1: "drop (p + 32) buffer = leBytes i 4 @ (?V @ s @ q @ post)"
    using drop_after [OF d0] lh by simp
  have r2: "readAsInt buffer 4 (Num (p + 32)) = (Num i, Num (p + 32 + 4))"
    using readAsInt_leBytes [OF d1] i by simp
  have d2: "drop (p + 32 + 4) buffer = ?V @ s @ (q @ post)"
    using drop_after [OF d1] by simp
  have r3: "readVarString buffer (Num (p + 32 + 4))
              = Inr (s, Num (p + 32 + 4 + length ?V + length s))"
    by (rule readVarString_drop [OF d2 s])
  have d2': "drop (p + 32 + 4) buffer = (?V @ s) @ (q @ post)" using d2 by simp
  have d3: "drop (p + 32 + 4 + length ?V + length s) buffer = q @ post"
    using drop_after [OF d2'] by (simp add: add.assoc)
  have r4: "readBytes buffer (Num 4) (Num (p + 32 + 4 + length ?V + length s))
              = (q, Num (p + 32 + 4 + length ?V + length s + 4))"
    using readBytes_drop [OF d3] q by simp
  have len: "length (serialize_in [] txin) = 32 + 4 + length ?V + length s + 4"
    using ser lh q by simp
  show ?thesis
    unfolding read_in_def r1 Let_def prod.case r2 r3 sum.case r4 len
    by (simp add: data_of_def o sc sq hh)
qed

lemma read_ins_serialize:
  assumes "list_all wf_in xs"
      and "drop p buffer = concat (map (serialize_in []) xs) @ post"
  shows "read_ins buffer (length xs) (Num p)
           = Inr (map data_of xs, Num (p + length (concat (map (serialize_in []) xs))))"
  using assms
proof (induction xs arbitrary: p)
  case Nil
  then show ?case by simp
next
  case (Cons x xs)
  let ?R = "concat (map (serialize_in []) xs)"
  from Cons.prems have wx: "wf_in x" and wxs: "list_all wf_in xs" by simp_all
  from Cons.prems(2) have d: "drop p buffer = serialize_in [] x @ (?R @ post)" by simp
  have r: "read_in buffer (Num p) = Inr (data_of x, Num (p + length (serialize_in [] x)))"
    by (rule read_in_serialize_in [OF wx d])
  have d': "drop (p + length (serialize_in [] x)) buffer = ?R @ post"
    by (rule drop_after [OF d])
  show ?case
    using Cons.IH [OF wxs d'] r by (simp add: add.assoc)
qed

lemma wf_out_serialize:
  assumes "wf_out txout"
  obtains v s where
    "txout = \<lparr> out_value = Num v, out_script = s \<rparr>" "v < 2 ^ 64" "length s < 65536"
    "serialize_out [] txout = leBytes v 8 @ numToVarInt (length s) @ s"
proof -
  from assms obtain v where v: "out_value txout = Num v" "v < 2 ^ 64"
    by (cases "out_value txout") (simp_all add: wf_out_def)
  have o: "txout = \<lparr> out_value = Num v, out_script = out_script txout \<rparr>"
    using v(1) by (cases txout) simp
  have s: "serialize_out [] txout
             = leBytes v 8 @ numToVarInt (length (out_script txout)) @ out_script txout"
    by (simp add: serialize_out_def Let_def v(1))
  from assms have "length (out_script txout) < 65536" by (simp add: wf_out_def)
  with that [OF o v(2) _ s] show thesis by blast
qed

lemma read_out_serialize_out:
  assumes wf: "wf_out txout" and d: "drop p buffer = serialize_out [] txout @ post"
  shows "read_out buffer (Num p) = Inr (txout, Num (p + length (serialize_out [] txout)))"
proof -
  from wf obtain v s where
    o: "txout = \<lparr> out_value = Num v, out_script = s \<rparr>"
    and v: "v < 2 ^ 64" and s: "length s < 65536"
    and ser: "serialize_out [] txout = leBytes v 8 @ numToVarInt (length s) @ s"
    by (rule wf_out_serialize)
  let ?V = "numToVarInt (length s)"
  have d0: "drop p buffer = leBytes v 8 @ (?V @ s @ post)" using d ser by simp
  have r1: "readBytes buffer (Num 8) (Num p) = (leBytes v 8, Num (p + 8))"
    using readBytes_drop [OF d0] by simp
  have d1: "drop (p + 8) buffer = ?V @ s @ post" using drop_after [OF d0] by simp
  have r2: "readVarString buffer (Num (p + 8)) = Inr (s, Num (p + 8 + length ?V + length s))"
    by (rule readVarString_drop [OF d1 s])
  have n: "bytesToNum (leBytes v 8) = Num v" using v by (simp add: bytesToNum_leBytes)
  have len: "length (serialize_out [] txout) = 8 + length ?V + length s" using ser by simp
  show ?thesis
    unfolding read_out_def r1 Let_def prod.case r2 sum.case len n
    by (simp add: o)
qed

lemma read_outs_serialize:
  assumes "list_all wf_out xs"
      and "drop p buffer = concat (map (serialize_out []) xs) @ post"
  shows "read_outs buffer (length xs) (Num p)
           = Inr (xs, Num (p + length (concat (map (serialize_out []) xs))))"
  using assms
proof (induction xs arbitrary: p)
  case Nil
  then show ?case by simp
next
  case (Cons x xs)
  let ?R = "concat (map (serialize_out []) xs)"
  from Cons.prems have wx: "wf_out x" and wxs: "list_all wf_out xs" by simp_all
  from Cons.prems(2) have d: "drop p buffer = serialize_out [] x @ (?R @ post)" by simp
  have r: "read_out buffer (Num p) = Inr (x, Num (p + length (serialize_out [] x)))"
    by (rule read_out_serialize_out [OF wx d])
  have d': "drop (p + length (serialize_out [] x)) buffer = ?R @ post"
    by (rule drop_after [OF d])
  show ?case
    using Cons.IH [OF wxs d'] r by (simp add: add.assoc)
qed

lemma serialize_eq:
  assumes "version tx < 2 ^ 32" and "locktime tx < 2 ^ 32"
  shows "serialize tx = serialize_body tx @ leBytes (locktime tx) 4"
  using assms
  by (simp add: serialize_def serialize_body_def Let_def foldl_serialize_in foldl_serialize_out)

lemma wf_tx_bounds: "wf_tx tx \<Longrightarrow> version tx < 2 ^ 32 \<and> locktime tx < 2 ^ 32"
  by (simp add: wf_tx_def)

lemma deserialize_body:
  assumes wf: "wf_tx tx"
  shows "deserialize (serialize_body tx @ tail)
           = Inr (new_Transaction
                    \<lparr> doc_version = Num (version tx),
                      doc_locktime = fst (readAsInt (serialize_body tx @ tail) 4
                                            (Num (length (serialize_body tx)))),
                      doc_ins = map data_of (ins tx), doc_outs = outs tx \<rparr>)"
proof -
  let ?b = "serialize_body tx @ tail"
  let ?VI = "numToVarInt (length (ins tx))"
  let ?I = "concat (map (serialize_in []) (ins tx))"
  let ?VO = "numToVarInt (length (outs tx))"
  let ?O = "concat (map (serialize_out []) (outs tx))"
  from wf have v: "version tx < 2 ^ 32" and ni: "length (ins tx) < 65536"
    and no: "length (outs tx) < 65536" and wi: "list_all wf_in (ins tx)"
    and wo: "list_all wf_out (outs tx)"
    by (simp_all add: wf_tx_def)
  have d0: "drop 0 ?b = leBytes (version tx) 4 @ (?VI @ ?I @ ?VO @ ?O @ tail)"
    by (simp add: serialize_body_def)
  have r0: "readAsInt ?b 4 (Num 0) = (Num (version tx), Num 4)"
    using readAsInt_leBytes [OF d0] v by simp
  have d1: "drop 4 ?b = ?VI @ (?I @ ?VO @ ?O @ tail)"
    using drop_after [OF d0] by simp
  have r1: "readVarInt ?b (Num 4) = Inr (Num (length (ins tx)), Num (4 + length ?VI))"
    by (rule readVarInt_numToVarInt [OF d1 ni])
  have d2: "drop (4 + length ?VI) ?b = ?I @ (?VO @ ?O @ tail)"
    by (rule drop_after [OF d1])
  have r2: "read_ins ?b (length (ins tx)) (Num (4 + length ?VI))
              = Inr (map data_of (ins tx), Num (4 + length ?VI + length ?I))"
    by (rule read_ins_serialize [OF wi d2])
  have d3: "drop (4 + length ?VI + length ?I) ?b = ?VO @ (?O @ tail)"
    by (rule drop_after [OF d2])
  have r3: "readVarInt ?b (Num (4 + length ?VI + length ?I))
              = Inr (Num (length (outs tx)), Num (4 + length ?VI + length ?I + length ?VO))"
    by (rule readVarInt_numToVarInt [OF d3 no])
  have d4: "drop (4 + length ?VI + length ?I + length ?VO) ?b = ?O @ tail"
    by (rule drop_after [OF d3])
  have r4: "read_outs ?b (length (outs tx)) (Num (4 + length ?VI + length ?I + length ?VO))
              = Inr (outs tx, Num (4 + length ?VI + length ?I + length ?VO + length ?O))"
    by (rule read_outs_serialize [OF wo d4])
  have len: "length (serialize_body tx) = 4 + length ?VI + length ?I + length ?VO + length ?O"
    by (simp add: serialize_body_def)
  show ?thesis
    unfolding deserialize_def Let_def r0 prod.case r1 sum.case loop_count.simps r2 r3 r4 len
    by (simp add: split_def)
qed

lemma new_TransactionIn_data_of: "wf_in txin \<Longrightarrow> new_TransactionIn (data_of txin) = txin"
  by (cases "sequence txin") (simp_all add: new_TransactionIn_def data_of_def wf_in_def)

lemma map_new_TransactionIn:
  "list_all wf_in xs \<Longrightarrow> map (new_TransactionIn \<circ> data_of) xs = xs"
  by (induction xs) (simp_all add: new_TransactionIn_data_of)

lemma map_new_TransactionOut: "map new_TransactionOut xs = xs"
  by (induction xs) (simp_all add: new_TransactionOut_def)

lemma readAsInt_short':
  assumes "0 < k" and "length buffer < p + k"
  shows "fst (readAsInt buffer k (Num p)) = NaN"
proof -
  from assms(1) obtain k' where k: "k = Suc k'" by (cases k) simp_all
  show ?thesis unfolding k by (rule readAsInt_short) (use assms(2) k in simp)
qed

lemma new_Transaction_deserialized:
  assumes "list_all wf_in (ins tx)"
  shows "new_Transaction \<lparr> doc_version = Num (version tx), doc_locktime = l,
                           doc_ins = map data_of (ins tx), doc_outs = outs tx \<rparr>
         = tx\<lparr>version := if version tx = 0 then 1 else version tx,
               locktime := (case l of Num n \<Rightarrow> n | _ \<Rightarrow> 0)\<rparr>"
  using assms
  by (cases tx; cases l)
     (simp_all add: new_Transaction_eq map_new_TransactionIn map_new_TransactionOut)

lemma deserialize_serialize:
  assumes wf: "wf_tx tx"
  shows "deserialize (serialize tx)
           = Inr (tx\<lparr>version := if version tx = 0 then 1 else version tx\<rparr>)"
proof -
  have d: "drop (length (serialize_body tx)) (serialize_body tx @ leBytes (locktime tx) 4)
             = leBytes (locktime tx) 4 @ []"
    by simp
  from wf have l: "locktime tx < 2 ^ 32" and wi: "list_all wf_in (ins tx)"
    and v: "version tx < 2 ^ 32"
    by (simp_all add: wf_tx_def)
  have r: "readAsInt (serialize_body tx @ leBytes (locktime tx) 4) 4
             (Num (length (serialize_body tx)))
           = (Num (locktime tx), Num (length (serialize_body tx) + 4))"
    using readAsInt_leBytes [OF d] l by simp
  show ?thesis
    unfolding serialize_eq [OF v l] deserialize_body [OF wf] r fst_conv new_Transaction_deserialized [OF wi]
    by simp
qed

lemma deserialize_truncated_locktime:
  assumes wf: "wf_tx tx" and j: "j < 4"
  shows "deserialize (serialize_body tx @ take j (leBytes (locktime tx) 4))
           = Inr (tx\<lparr>version := if version tx = 0 then 1 else version tx, locktime := 0\<rparr>)"
proof -
  let ?b = "serialize_body tx @ take j (leBytes (locktime tx) 4)"
  have "length ?b < length (serialize_body tx) + 4" using j by simp
  then have r: "fst (readAsInt ?b 4 (Num (length (serialize_body tx)))) = NaN"
    by (intro readAsInt_short') simp_all
  from wf have wi: "list_all wf_in (ins tx)" by (simp add: wf_tx_def)
  show ?thesis
    unfolding deserialize_body [OF wf] r new_Transaction_deserialized [OF wi]
    by simp
qed

section \<open>The examples and the wire layout as transactions\<close>

lemma display_hex_example: "display_hex example_hash" by code_simp

lemma outs_example_tx: "outs example_tx = [\<lparr> out_value = Num 0, out_script = [] \<rparr>]"
  by (simp add: example_tx_def addInput_hash_def addOutput_def empty_Transaction_def)

lemma version_example_tx: "version example_tx = 1" "locktime example_tx = 0"
  by (simp_all add: example_tx_def addInput_hash_def addOutput_def empty_Transaction_def)

lemma wf_example_tx: "wf_tx example_tx"
  by (simp add: wf_tx_def ins_example_tx outs_example_tx version_example_tx wf_in_def wf_out_def
        display_hex_example defaultSequence_def)

lemma wf_tx_version: "wf_tx tx \<Longrightarrow> v < 2 ^ 32 \<Longrightarrow> wf_tx (tx\<lparr>version := v\<rparr>)"
  by (simp add: wf_tx_def)

lemma wf_tx_locktime: "wf_tx tx \<Longrightarrow> l < 2 ^ 32 \<Longrightarrow> wf_tx (tx\<lparr>locktime := l\<rparr>)"
  by (simp add: wf_tx_def)

lemma bytes_map_Num: "byte_list bs \<Longrightarrow> bytes (map Num bs)"
  by (induction bs) (simp_all add: byte_list_def bytes_def is_byte_def)

lemma serialize_in_of_wire:
  assumes "wire_in_ok wi"
  shows "serialize_in [] (in_of_wire wi) = wire_in_bytes wi"
proof -
  from assms have "bytes (map Num (prev_hash wi))" by (simp add: wire_in_ok_def bytes_map_Num)
  then have "hexToBytes (bytesToHex (map Num (prev_hash wi))) = map Num (prev_hash wi)"
    by (rule hexToBytes_bytesToHex)
  moreover from assms have "prev_index wi < 2 ^ 32" by (simp add: wire_in_ok_def)
  ultimately show ?thesis
    by (simp add: serialize_in_def in_of_wire_def wire_in_bytes_def Let_def rev_map)
qed

lemma serialize_out_of_wire: "serialize_out [] (out_of_wire wo) = wire_out_bytes wo"
  by (simp add: serialize_out_def out_of_wire_def wire_out_bytes_def Let_def)

lemma wf_in_of_wire:
  assumes "wire_in_ok wi" and "length (unlock_script wi) < 65536"
  shows "wf_in (in_of_wire wi)"
proof -
  from assms(1) have b: "bytes (map Num (prev_hash wi))" and l: "length (prev_hash wi) = 32"
    by (simp_all add: wire_in_ok_def bytes_map_Num)
  have "display_hex (bytesToHex (map Num (prev_hash wi)))"
    using lower_hex_bytesToHex [OF b] length_bytesToHex [OF b] l by (simp add: display_hex_def)
  then show ?thesis using assms by (simp add: wf_in_def in_of_wire_def wire_in_ok_def)
qed

lemma wf_out_of_wire:
  "wire_out_ok wo \<Longrightarrow> length (lock_script wo) < 65536 \<Longrightarrow> wf_out (out_of_wire wo)"
  by (simp add: wf_out_def out_of_wire_def wire_out_ok_def)

lemma list_all_conj_map:
  "list_all P xs \<Longrightarrow> list_all Q xs \<Longrightarrow> (\<And>x. P x \<Longrightarrow> Q x \<Longrightarrow> R (f x)) \<Longrightarrow> list_all R (map f xs)"
  by (induction xs) simp_all

lemma wf_tx_of_wire:
  assumes "wire_ok w" and "short_varints w"
  shows "wf_tx (tx_of_wire w)"
proof -
  from assms have "list_all wf_in (map in_of_wire (w_ins w))"
    by (intro list_all_conj_map [where P = wire_in_ok
            and Q = "\<lambda>wi. length (unlock_script wi) < 65536"])
       (simp_all add: wire_ok_def short_varints_def wf_in_of_wire)
  moreover from assms have "list_all wf_out (map out_of_wire (w_outs w))"
    by (intro list_all_conj_map [where P = wire_out_ok
            and Q = "\<lambda>wo. length (lock_script wo) < 65536"])
       (simp_all add: wire_ok_def short_varints_def wf_out_of_wire)
  ultimately show ?thesis using assms
    by (simp add: wf_tx_def tx_of_wire_def wire_ok_def short_varints_def)
qed

lemma map_serialize_in_of_wire:
  "list_all wire_in_ok ws \<Longrightarrow>
   concat (map (\<lambda>x. serialize_in [] (in_of_wire x)) ws) = concat (map wire_in_bytes ws)"
  by (induction ws) (simp_all add: serialize_in_of_wire)

lemma serialize_tx_of_wire:
  assumes "wire_ok w"
  shows "serialize (tx_of_wire w) = wire_encoding w"
proof -
  from assms have i: "list_all wire_in_ok (w_ins w)" by (simp add: wire_ok_def)
  from assms have "version (tx_of_wire w) < 2 ^ 32" "locktime (tx_of_wire w) < 2 ^ 32"
    by (simp_all add: wire_ok_def tx_of_wire_def)
  from serialize_eq [OF this] map_serialize_in_of_wire [OF i] show ?thesis
    by (simp add: serialize_body_def tx_of_wire_def wire_encoding_def
          serialize_out_of_wire comp_def)
qed

lemma wire_ok_example: "wire_ok wire_example"
  by (simp add: wire_ok_def wire_example_def wire_in_ok_def wire_out_ok_def byte_list_def
        list_all_iff)

lemma short_varints_example: "short_varints wire_example"
  by (simp add: short_varints_def wire_example_def)

lemma deserialize_version:
  assumes "deserialize b = Inr t"
  shows "version t = (case fst (readAsInt b 4 (Num 0)) of
                        Num v \<Rightarrow> if v \<noteq> 0 then v else 1 | _ \<Rightarrow> 1)"
  using assms
  by (auto simp: deserialize_def Let_def split_def new_Transaction_eq
           split: sum.splits prod.splits simp del: readAsInt.simps)

lemma readAsInt_zero_version:
  assumes "take 4 b = [Num 0, Num 0, Num 0, Num 0]"
  shows "readAsInt b 4 (Num 0) = (Num 0, Num 4)"
proof -
  have "drop 0 b = take 4 b @ drop 4 b" by simp
  also have "take 4 b = leBytes 0 4" unfolding assms by code_simp
  finally have "drop 0 b = leBytes 0 4 @ drop 4 b" .
  from readAsInt_leBytes [OF this] show ?thesis by simp
qed



section \<open>A script of 65536 bytes\<close>








lemma zero_version_bytes:
  assumes "take 4 b = [Num 0, Num 0, Num 0, Num 0]" and "deserialize b = Inr t"
  shows "version t = 1"
  using assms deserialize_version [of b t] readAsInt_zero_version [of b] by simp
section \<open>Round trips of the codec\<close>

text \<open>
  Claim C2 (as amended): for every transaction with a nonzero version below 2^32, a
  locktime below 2^32, fewer than 65536 inputs and outputs, every script shorter than
  65536 elements, every input with a hash of 64 lower-case hexadecimal digits, an index
  below 2^32 and a sequence of four elements, and every output with a value below 2^64,
  \<^verbatim>\<open>deserialize(serialize(t))\<close> returns the transaction with the same version, locktime,
  inputs and outputs.
\<close>

theorem deserialize_serialize_roundtrip:
  assumes "wf_tx tx" and "version tx \<noteq> 0"
  shows "deserialize (serialize tx) = Inr tx"
  using deserialize_serialize [OF assms(1)] assms(2) by simp

theorem deserialize_serialize_roundtrip_witness:
  "wf_tx example_tx \<and> version example_tx \<noteq> 0
   \<and> deserialize (serialize example_tx) = Inr example_tx"
proof -
  have v: "version example_tx \<noteq> 0" by (simp add: version_example_tx)
  from deserialize_serialize_roundtrip [OF wf_example_tx v] wf_example_tx v
  show ?thesis by simp
qed

text \<open>
  The claim as stated covers any version. With version 0 the constructor called at the
  end of \<^verbatim>\<open>deserialize\<close> keeps its default (line 24, \<^verbatim>\<open>if (doc.version)\<close>): the golden
  vector with version 0 comes back with version 1.
\<close>

theorem roundtrip_version_zero_counterexample:
  "deserialize (serialize (example_tx\<lparr>version := 0\<rparr>)) = Inr (example_tx\<lparr>version := 1\<rparr>)
   \<and> example_tx\<lparr>version := 1\<rparr> \<noteq> example_tx\<lparr>version := 0\<rparr>"
  by code_simp

text \<open>
  Claim C3 (as amended): for every byte sequence that is the wire encoding, per the layout
  of spec section 4.1, of a transaction with a nonzero version, with every count and
  script length below 65536 and with every amount below 2^53, \<^verbatim>\<open>deserialize\<close> returns a
  transaction and its \<^verbatim>\<open>serialize()\<close> is that byte sequence.
\<close>

theorem serialize_deserialize_wire:
  assumes "wire_ok w" and "short_varints w" and "exact_amounts w" and "w_version w \<noteq> 0"
  shows "\<exists>t. deserialize (wire_encoding w) = Inr t \<and> serialize t = wire_encoding w"
proof -
  have wf: "wf_tx (tx_of_wire w)" by (rule wf_tx_of_wire [OF assms(1,2)])
  have v: "version (tx_of_wire w) \<noteq> 0" using assms(4) by (simp add: tx_of_wire_def)
  have "deserialize (serialize (tx_of_wire w)) = Inr (tx_of_wire w)"
    using deserialize_serialize [OF wf] v by simp
  then show ?thesis unfolding serialize_tx_of_wire [OF assms(1)]
    using serialize_tx_of_wire [OF assms(1)] by blast
qed

theorem serialize_deserialize_wire_witness:
  "wire_ok wire_example \<and> short_varints wire_example \<and> exact_amounts wire_example
   \<and> w_version wire_example \<noteq> 0
   \<and> (\<exists>t. deserialize (wire_encoding wire_example) = Inr t
          \<and> serialize t = wire_encoding wire_example)"
proof -
  have v: "w_version wire_example \<noteq> 0" by (simp add: wire_example_def)
  have a: "exact_amounts wire_example" by (simp add: exact_amounts_def wire_example_def)
  from serialize_deserialize_wire [OF wire_ok_example short_varints_example a v]
  show ?thesis using wire_ok_example short_varints_example a v by blast
qed

text \<open>
  The claim as stated covers every wire encoding. The ten zero bytes that encode the empty
  transaction with version 0 are deserialized with version 1 and serialized again with
  the first byte 1.
\<close>

theorem wire_version_zero_counterexample:
  "deserialize (wire_encoding wire_zero) = Inr \<lparr> version = 1, locktime = 0, ins = [], outs = [] \<rparr>
   \<and> serialize \<lparr> version = 1, locktime = 0, ins = [], outs = [] \<rparr> \<noteq> wire_encoding wire_zero"
  by code_simp

section \<open>The zero version\<close>




section \<open>Buffers that end too early\<close>

text \<open>
  Claim C5 (as amended): \<^verbatim>\<open>deserialize\<close> makes no bounds check and raises no
  MalformedEncoding. When the buffer is the encoding of a transaction with its last one
  to four bytes cut off, so that the read of the four-byte locktime runs past the end,
  the locktime is read as NaN and \<^verbatim>\<open>deserialize\<close> returns the transaction with the
  default locktime 0 (and the default version 1 for a version 0).
\<close>

theorem deserialize_locktime_cut_off:
  assumes "wf_tx tx" and "0 < k" and "k \<le> 4"
  shows "deserialize (take (length (serialize tx) - k) (serialize tx))
           = Inr (tx\<lparr>version := if version tx = 0 then 1 else version tx, locktime := 0\<rparr>)"
proof -
  have "take (length (serialize tx) - k) (serialize tx)
          = serialize_body tx @ take (4 - k) (leBytes (locktime tx) 4)"
    using assms(3) wf_tx_bounds [OF assms(1)] by (simp add: serialize_eq)
  moreover have "4 - k < 4" using assms(2) by simp
  ultimately show ?thesis using deserialize_truncated_locktime [OF assms(1)] by simp
qed

theorem deserialize_locktime_cut_off_witness:
  "wf_tx (example_tx\<lparr>locktime := 7\<rparr>) \<and> (0::nat) < 2 \<and> (2::nat) \<le> 4
   \<and> deserialize (take (length (serialize (example_tx\<lparr>locktime := 7\<rparr>)) - 2)
                      (serialize (example_tx\<lparr>locktime := 7\<rparr>)))
       = Inr example_tx"
proof -
  have w: "wf_tx (example_tx\<lparr>locktime := 7\<rparr>)"
    by (rule wf_tx_locktime [OF wf_example_tx]) simp
  have e: "example_tx\<lparr>locktime := 7, version := 1, locktime := 0\<rparr> = example_tx"
    by (simp add: example_tx_def addInput_hash_def addOutput_def empty_Transaction_def)
  from deserialize_locktime_cut_off [OF w, of 2] show ?thesis
    using w e by (simp add: version_example_tx)
qed

text \<open>
  The claim as stated has an error raised whenever a read exceeds the remaining bytes.
  On the six bytes 1, 0, 0, 0, 0, 0 (version 1, no input, no output, no locktime) a
  transaction is returned.
\<close>

theorem deserialize_short_buffer_counterexample:
  "deserialize [Num 1, Num 0, Num 0, Num 0, Num 0, Num 0]
     = Inr \<lparr> version = 1, locktime = 0, ins = [], outs = [] \<rparr>"
  by code_simp

section \<open>clone and the objects it shares\<close>

lemmas store_defs = new_Transaction_store_def addInput_hash_store_def new_Script_def
  alloc_array_def alloc_in_def alloc_out_def alloc_tx_def push_in_def push_out_def
  empty_store_def Transaction_clone_def TransactionIn_clone_def TransactionOut_clone_def
  Script_clone_def Let_def

lemma example_store_obs:
  "lim example_store = 4"
  "txs example_store 1 = \<lparr> o_version = 1, o_locktime = 0, o_ins = [3], o_outs = [],
                             o_defaultSequence = 0 \<rparr>"
  "inputs example_store 3 = \<lparr> o_hash = example_hash, o_index = Num 0, o_script = 2,
                                o_sequence = Ref 0 \<rparr>"
  "arrays example_store 0 = defaultSequence"
  "arrays example_store 2 = []"
  by (simp_all add: example_store_def store_defs)


lemma clone_example_store_obs:
  "fst (Transaction_clone 1 example_store) = 5"
  "txs (snd (Transaction_clone 1 example_store)) 5
     = \<lparr> o_version = 1, o_locktime = 0, o_ins = [7], o_outs = [], o_defaultSequence = 4 \<rparr>"
  "inputs (snd (Transaction_clone 1 example_store)) 7
     = \<lparr> o_hash = example_hash, o_index = Num 0, o_script = 6, o_sequence = Ref 0 \<rparr>"
  "txs (snd (Transaction_clone 1 example_store)) 1 = txs example_store 1"
  "inputs (snd (Transaction_clone 1 example_store)) 3 = inputs example_store 3"
  "arrays (snd (Transaction_clone 1 example_store)) 0 = defaultSequence"
  "arrays (snd (Transaction_clone 1 example_store)) 2 = []"
  by (simp_all add: Transaction_clone_def TransactionIn_clone_def Script_clone_def
        new_Transaction_store_def alloc_array_def alloc_in_def alloc_tx_def push_in_def
        Let_def example_store_obs del: One_nat_def)

text \<open>
  Claim C8 says that a clone shares no mutable state with its original, the sequence
  bytes of an input included. \<^verbatim>\<open>TransactionIn.prototype.clone\<close> clones the script but
  passes \<^verbatim>\<open>this.sequence\<close> on as it is (line 417): in the store that holds the golden
  vector's input (built by \<^verbatim>\<open>addInput\<close>), the input of the original and the input of
  the clone refer to the same sequence array, at address 0, and \<^verbatim>\<open>sequence[0] = 0\<close> done
  through the clone changes the sequence of the original's input from
  255, 255, 255, 255 to 0, 255, 255, 255.
\<close>

theorem clone_shares_sequence_array:
  "o_sequence (inputs example_store (o_ins (txs example_store 1) ! 0)) = Ref 0
   \<and> o_sequence (inputs (snd (Transaction_clone 1 example_store))
         (o_ins (txs (snd (Transaction_clone 1 example_store))
                  (fst (Transaction_clone 1 example_store))) ! 0)) = Ref 0
   \<and> sequence (ins (tx_at (snd (Transaction_clone 1 example_store)) 1) ! 0)
         = Arr [Num 255, Num 255, Num 255, Num 255]
   \<and> sequence (ins (tx_at (array_set 0 0 (Num 0) (snd (Transaction_clone 1 example_store))) 1) ! 0)
         = Arr [Num 0, Num 255, Num 255, Num 255]"
  by (simp add: clone_example_store_obs example_store_obs tx_at_def input_at_def array_set_def
        defaultSequence_def del: One_nat_def)

section \<open>The signature hash in the store\<close>

text \<open>
  The lemmas of this section follow \<^verbatim>\<open>hashTransactionForSignature\<close> through the store:
  the clone and every later assignment touch new objects only, and the transaction that
  is serialized is the one that \<open>signature_txTmp\<close> computes from the transaction read at
  the start.
\<close>

lemma input_at_cong:
  assumes "inputs st' i = inputs st i"
      and "arrays st' (o_script (inputs st i)) = arrays st (o_script (inputs st i))"
      and "read_seq st' (o_sequence (inputs st i)) = read_seq st (o_sequence (inputs st i))"
  shows "input_at st' i = input_at st i"
  using assms by (simp add: input_at_def)

lemma read_seq_cong:
  "seq_ok st q \<Longrightarrow> (\<And>x. x < lim st \<Longrightarrow> arrays st' x = arrays st x) \<Longrightarrow>
   read_seq st' q = read_seq st q"
  by (cases q) simp_all

lemma input_at_unchanged:
  assumes "in_ok st i" and "inputs st' i = inputs st i"
      and "\<And>x. x < lim st \<Longrightarrow> arrays st' x = arrays st x"
  shows "input_at st' i = input_at st i"
  using assms by (intro input_at_cong read_seq_cong) (simp_all add: in_ok_def)

lemma output_at_unchanged:
  assumes "out_ok st x" and "outputs st' x = outputs st x"
      and "\<And>y. y < lim st \<Longrightarrow> arrays st' y = arrays st y"
  shows "output_at st' x = output_at st x"
  using assms by (simp add: output_at_def out_ok_def)

lemma in_ok_mono:
  assumes "in_ok st i" and "inputs st' i = inputs st i" and "lim st \<le> lim st'"
  shows "in_ok st' i"
proof -
  have "seq_ok st' (o_sequence (inputs st i))"
    using assms by (cases "o_sequence (inputs st i)") (simp_all add: in_ok_def)
  then show ?thesis using assms by (simp add: in_ok_def)
qed

lemma out_ok_mono:
  "out_ok st x \<Longrightarrow> outputs st' x = outputs st x \<Longrightarrow> lim st \<le> lim st' \<Longrightarrow> out_ok st' x"
  by (simp add: out_ok_def)

lemma TransactionIn_clone_eq:
  "TransactionIn_clone i st =
     (Suc (lim st),
      st\<lparr>arrays := (arrays st)(lim st := arrays st (o_script (inputs st i))),
         inputs := (inputs st)(Suc (lim st) :=
            \<lparr> o_hash = o_hash (inputs st i), o_index = o_index (inputs st i),
              o_script = lim st,
              o_sequence = (if truthy_ref (o_sequence (inputs st i))
                            then o_sequence (inputs st i) else Prim Undefined) \<rparr>),
         lim := Suc (Suc (lim st))\<rparr>)"
  by (simp add: TransactionIn_clone_def Script_clone_def alloc_array_def alloc_in_def Let_def)

lemma TransactionOut_clone_eq:
  "TransactionOut_clone x st =
     (Suc (Suc (lim st)),
      st\<lparr>arrays := (arrays st)(lim st := arrays st (o_out_script (outputs st x)),
                                 Suc (lim st) := arrays st (o_out_script (outputs st x))),
         outputs := (outputs st)(Suc (Suc (lim st)) :=
            \<lparr> o_value = o_value (outputs st x), o_out_script = Suc (lim st) \<rparr>),
         lim := Suc (Suc (Suc (lim st)))\<rparr>)"
  by (simp add: TransactionOut_clone_def Script_clone_def alloc_array_def alloc_out_def Let_def)

lemma truthy_ref_read_seq: "truthy_field (read_seq st q) = truthy_ref q"
  by (cases q) simp_all

lemma input_at_TransactionIn_clone:
  assumes "in_ok st i"
  shows "input_at (snd (TransactionIn_clone i st)) (Suc (lim st)) = clone_in (input_at st i)"
proof -
  from assms have s: "o_script (inputs st i) < lim st" by (simp add: in_ok_def)
  from assms have q: "seq_ok st (o_sequence (inputs st i))" by (simp add: in_ok_def)
  show ?thesis
  proof (cases "o_sequence (inputs st i)")
    case (Ref r)
    with q have "r < lim st" by simp
    with Ref s show ?thesis
      by (simp add: TransactionIn_clone_eq input_at_def clone_in_def new_TransactionIn_def)
  next
    case (Prim v)
    with s show ?thesis
      by (simp add: TransactionIn_clone_eq input_at_def clone_in_def new_TransactionIn_def)
  qed
qed

lemma read_seq_push_in [simp]: "read_seq (push_in n i st) q = read_seq st q"
  by (cases q) (simp_all add: push_in_def)

lemma input_at_push_in [simp]: "input_at (push_in n i st) j = input_at st j"
  by (simp add: input_at_def) (simp add: push_in_def)

lemma clone_ins_spec:
  assumes "list_all (in_ok st) is"
  shows "\<exists>new. ins_cloned n is st (clone_ins n is st) new"
  using assms
proof (induction "is" arbitrary: st)
  case Nil
  have "ins_cloned n [] st (clone_ins n [] st) []" by (simp add: ins_cloned_def)
  then show ?case by (rule exI)
next
  case (Cons i "is")
  define i' where "i' = Suc (lim st)"
  define st2 where "st2 = push_in n i' (snd (TransactionIn_clone i st))"
  define st' where "st' = clone_ins n is st2"
  have c: "clone_ins n (i # is) st = st'"
    by (simp add: st'_def st2_def i'_def TransactionIn_clone_eq)
  from Cons.prems have oki: "in_ok st i" and okis: "list_all (in_ok st) is" by simp_all
  have lim2: "lim st2 = Suc (Suc (lim st))"
    by (simp add: st2_def TransactionIn_clone_eq push_in_def)
  have arr2: "arrays st2 x = arrays st x" if "x < lim st" for x
    using that by (simp add: st2_def TransactionIn_clone_eq push_in_def)
  have inp2: "inputs st2 x = inputs st x" if "x < lim st" for x
    using that by (simp add: st2_def i'_def TransactionIn_clone_eq push_in_def)
  have out2: "outputs st2 = outputs st"
    by (simp add: st2_def TransactionIn_clone_eq push_in_def)
  have txs2: "txs st2 = (txs st)(n := (txs st n)\<lparr>o_ins := o_ins (txs st n) @ [i']\<rparr>)"
    by (simp add: st2_def TransactionIn_clone_eq push_in_def)
  have le2: "lim st \<le> lim st2" by (simp add: lim2)
  have okj: "in_ok st2 j" if j: "in_ok st j" for j
  proof -
    from j have "j < lim st" by (simp add: in_ok_def)
    then have e: "inputs st2 j = inputs st j" by (rule inp2)
    show ?thesis by (rule in_ok_mono [OF j e le2])
  qed
  have ok2: "list_all (in_ok st2) is"
    using okis okj by (simp add: list_all_iff)
  have same: "input_at st2 j = input_at st j" if j: "in_ok st j" for j
  proof -
    from j have "j < lim st" by (simp add: in_ok_def)
    then have e: "inputs st2 j = inputs st j" by (rule inp2)
    show ?thesis by (rule input_at_unchanged [OF j e arr2])
  qed
  have i2: "input_at st2 i' = clone_in (input_at st i)"
    using input_at_TransactionIn_clone [OF oki] by (simp add: st2_def i'_def)
  have inp_i': "inputs st2 i' =
        \<lparr> o_hash = o_hash (inputs st i), o_index = o_index (inputs st i), o_script = lim st,
          o_sequence = (if truthy_ref (o_sequence (inputs st i))
                        then o_sequence (inputs st i) else Prim Undefined) \<rparr>"
    by (simp add: st2_def i'_def TransactionIn_clone_eq push_in_def)
  have oki2: "in_ok st2 i'"
  proof -
    from oki have "seq_ok st (o_sequence (inputs st i))" by (simp add: in_ok_def)
    then have "seq_ok st2 (o_sequence (inputs st i))"
      by (cases "o_sequence (inputs st i)") (simp_all add: lim2)
    then show ?thesis
      unfolding in_ok_def inp_i' by (simp add: lim2 i'_def)
  qed
  from Cons.IH [OF ok2] obtain new where H: "ins_cloned n is st2 st' new"
    unfolding st'_def by (rule exE)
  note H' = H [unfolded ins_cloned_def]
  note t = H' [THEN conjunct1]
  note ou = H' [THEN conjunct2, THEN conjunct1]
  note li = H' [THEN conjunct2, THEN conjunct2, THEN conjunct1]
  note be = H' [THEN conjunct2, THEN conjunct2, THEN conjunct2, THEN conjunct1]
  note fr = H' [THEN conjunct2, THEN conjunct2, THEN conjunct2, THEN conjunct2, THEN conjunct1]
  note di = H' [THEN conjunct2, THEN conjunct2, THEN conjunct2, THEN conjunct2, THEN conjunct2,
               THEN conjunct1]
  note ma = H' [THEN conjunct2, THEN conjunct2, THEN conjunct2, THEN conjunct2, THEN conjunct2,
               THEN conjunct2]
  have i'_lt: "i' < lim st2" by (simp add: lim2 i'_def)
  have arr': "arrays st' x = arrays st2 x" if "x < lim st2" for x using be that by blast
  have inp': "inputs st' x = inputs st2 x" if "x < lim st2" for x using be that by blast
  have ma': "map (\<lambda>j. clone_in (input_at st2 j)) is = map (\<lambda>j. clone_in (input_at st j)) is"
    using okis same by (simp add: list_all_iff)
  have e': "inputs st' i' = inputs st2 i'" by (rule inp' [OF i'_lt])
  have i'_at: "input_at st' i' = clone_in (input_at st i)"
    using input_at_unchanged [OF oki2 e' arr'] i2 by simp
  have oki': "in_ok st' i'" by (rule in_ok_mono [OF oki2 e' li])
  have notin: "i' \<notin> set new"
  proof
    assume "i' \<in> set new"
    with fr have "lim st2 \<le> i'" by (simp add: list_all_iff)
    with i'_lt show False by simp
  qed
  have fr': "list_all (\<lambda>j. lim st \<le> j \<and> in_ok st' j) new"
    using fr le2 by (simp add: list_all_iff) (meson le_trans)
  have c1: "txs st' = (txs st)(n := (txs st n)\<lparr>o_ins := o_ins (txs st n) @ i' # new\<rparr>)"
    unfolding t txs2 by simp
  have c2: "outputs st' = outputs st" using ou out2 by simp
  have c3: "lim st \<le> lim st'" using li le2 by (rule le_trans [rotated])
  have c4: "\<forall>x<lim st. arrays st' x = arrays st x \<and> inputs st' x = inputs st x"
  proof (intro allI impI)
    fix x assume x: "x < lim st"
    then have "x < lim st2" using le2 by simp
    then show "arrays st' x = arrays st x \<and> inputs st' x = inputs st x"
      using arr' inp' arr2 [OF x] inp2 [OF x] by simp
  qed
  have c5: "list_all (\<lambda>j. lim st \<le> j \<and> in_ok st' j) (i' # new)"
    using fr' oki' by (simp add: i'_def)
  have c6: "distinct (i' # new)" using di notin by simp
  have c7: "map (input_at st') (i' # new) = map (\<lambda>j. clone_in (input_at st j)) (i # is)"
    using ma ma' i'_at by simp
  have "ins_cloned n (i # is) st st' (i' # new)"
    unfolding ins_cloned_def using c1 c2 c3 c4 c5 c6 c7 by (intro conjI)
  then show ?case unfolding c by (rule exI)
qed

lemma output_at_push_out [simp]: "output_at (push_out n i st) j = output_at st j"
  by (simp add: output_at_def) (simp add: push_out_def)

lemma output_at_TransactionOut_clone:
  assumes "out_ok st x"
  shows "output_at (snd (TransactionOut_clone x st)) (Suc (Suc (lim st))) = output_at st x"
  using assms by (simp add: TransactionOut_clone_eq output_at_def out_ok_def)

lemma clone_outs_spec:
  assumes "list_all (out_ok st) xs"
  shows "\<exists>new. outs_cloned n xs st (clone_outs n xs st) new"
  using assms
proof (induction xs arbitrary: st)
  case Nil
  have "outs_cloned n [] st (clone_outs n [] st) []" by (simp add: outs_cloned_def)
  then show ?case by (rule exI)
next
  case (Cons x xs)
  define x' where "x' = Suc (Suc (lim st))"
  define st2 where "st2 = push_out n x' (snd (TransactionOut_clone x st))"
  define st' where "st' = clone_outs n xs st2"
  have c: "clone_outs n (x # xs) st = st'"
    by (simp add: st'_def st2_def x'_def TransactionOut_clone_eq)
  from Cons.prems have okx: "out_ok st x" and okxs: "list_all (out_ok st) xs" by simp_all
  have lim2: "lim st2 = Suc (Suc (Suc (lim st)))"
    by (simp add: st2_def TransactionOut_clone_eq push_out_def)
  have arr2: "arrays st2 y = arrays st y" if "y < lim st" for y
    using that by (simp add: st2_def TransactionOut_clone_eq push_out_def)
  have outp2: "outputs st2 y = outputs st y" if "y < lim st" for y
    using that by (simp add: st2_def x'_def TransactionOut_clone_eq push_out_def)
  have inp2: "inputs st2 = inputs st"
    by (simp add: st2_def TransactionOut_clone_eq push_out_def)
  have txs2: "txs st2 = (txs st)(n := (txs st n)\<lparr>o_outs := o_outs (txs st n) @ [x']\<rparr>)"
    by (simp add: st2_def TransactionOut_clone_eq push_out_def)
  have le2: "lim st \<le> lim st2" by (simp add: lim2)
  have okj: "out_ok st2 j" if j: "out_ok st j" for j
  proof -
    from j have "j < lim st" by (simp add: out_ok_def)
    then have e: "outputs st2 j = outputs st j" by (rule outp2)
    show ?thesis by (rule out_ok_mono [OF j e le2])
  qed
  have ok2: "list_all (out_ok st2) xs"
    using okxs okj by (simp add: list_all_iff)
  have same: "output_at st2 j = output_at st j" if j: "out_ok st j" for j
  proof -
    from j have "j < lim st" by (simp add: out_ok_def)
    then have e: "outputs st2 j = outputs st j" by (rule outp2)
    show ?thesis by (rule output_at_unchanged [OF j e arr2])
  qed
  have x2: "output_at st2 x' = output_at st x"
    using output_at_TransactionOut_clone [OF okx] by (simp add: st2_def x'_def)
  have outp_x': "outputs st2 x' = \<lparr> o_value = o_value (outputs st x), o_out_script = Suc (lim st) \<rparr>"
    by (simp add: st2_def x'_def TransactionOut_clone_eq push_out_def)
  have okx2: "out_ok st2 x'"
    unfolding out_ok_def outp_x' by (simp add: lim2 x'_def)
  from Cons.IH [OF ok2] obtain new where H: "outs_cloned n xs st2 st' new"
    unfolding st'_def by (rule exE)
  note H' = H [unfolded outs_cloned_def]
  note t = H' [THEN conjunct1]
  note inp = H' [THEN conjunct2, THEN conjunct1]
  note li = H' [THEN conjunct2, THEN conjunct2, THEN conjunct1]
  note be = H' [THEN conjunct2, THEN conjunct2, THEN conjunct2, THEN conjunct1]
  note fr = H' [THEN conjunct2, THEN conjunct2, THEN conjunct2, THEN conjunct2, THEN conjunct1]
  note ma = H' [THEN conjunct2, THEN conjunct2, THEN conjunct2, THEN conjunct2, THEN conjunct2]
  have x'_lt: "x' < lim st2" by (simp add: lim2 x'_def)
  have arr': "arrays st' y = arrays st2 y" if "y < lim st2" for y using be that by blast
  have outp': "outputs st' y = outputs st2 y" if "y < lim st2" for y using be that by blast
  have ma': "map (output_at st2) xs = map (output_at st) xs"
    using okxs same by (simp add: list_all_iff)
  have e': "outputs st' x' = outputs st2 x'" by (rule outp' [OF x'_lt])
  have x'_at: "output_at st' x' = output_at st x"
    using output_at_unchanged [OF okx2 e' arr'] x2 by simp
  have okx': "out_ok st' x'" by (rule out_ok_mono [OF okx2 e' li])
  have fr': "list_all (\<lambda>j. lim st \<le> j \<and> out_ok st' j) new"
    using fr le2 by (simp add: list_all_iff) (meson le_trans)
  have c1: "txs st' = (txs st)(n := (txs st n)\<lparr>o_outs := o_outs (txs st n) @ x' # new\<rparr>)"
    unfolding t txs2 by simp
  have c2: "inputs st' = inputs st" using inp inp2 by simp
  have c3: "lim st \<le> lim st'" using li le2 by (rule le_trans [rotated])
  have c4: "\<forall>y<lim st. arrays st' y = arrays st y \<and> outputs st' y = outputs st y"
  proof (intro allI impI)
    fix y assume y: "y < lim st"
    then have "y < lim st2" using le2 by simp
    then show "arrays st' y = arrays st y \<and> outputs st' y = outputs st y"
      using arr' outp' arr2 [OF y] outp2 [OF y] by simp
  qed
  have c5: "list_all (\<lambda>j. lim st \<le> j \<and> out_ok st' j) (x' # new)"
    using fr' okx' by (simp add: x'_def)
  have c7: "map (output_at st') (x' # new) = map (output_at st) (x # xs)"
    using ma ma' x'_at by simp
  have "outs_cloned n (x # xs) st st' (x' # new)"
    unfolding outs_cloned_def using c1 c2 c3 c4 c5 c7 by (intro conjI)
  then show ?case unfolding c by (rule exI)
qed

lemma Transaction_clone_eq:
  "Transaction_clone a st =
     (Suc (lim st),
      clone_outs (Suc (lim st)) (o_outs (txs st a))
        (clone_ins (Suc (lim st)) (o_ins (txs st a)) (fresh_tx a st)))"
  by (simp add: Transaction_clone_def new_Transaction_store_def alloc_array_def alloc_tx_def
        Let_def fresh_tx_def)

lemma Transaction_clone_spec:
  assumes ok: "tx_ok st a"
  shows "clone_result st a (fst (Transaction_clone a st)) (snd (Transaction_clone a st))"
proof -
  define c where "c = Suc (lim st)"
  define st3 where "st3 = fresh_tx a st"
  define st4 where "st4 = clone_ins c (o_ins (txs st a)) st3"
  define st5 where "st5 = clone_outs c (o_outs (txs st a)) st4"
  let ?is = "o_ins (txs st a)"
  let ?xs = "o_outs (txs st a)"
  have tc: "Transaction_clone a st = (c, st5)"
    by (simp add: Transaction_clone_eq c_def st3_def st4_def st5_def)
  from ok have okis: "list_all (in_ok st) ?is" and okxs: "list_all (out_ok st) ?xs"
    by (simp_all add: tx_ok_def)
  have lim3: "lim st3 = Suc (Suc (lim st))" by (simp add: st3_def fresh_tx_def)
  have inp3: "inputs st3 = inputs st" by (simp add: st3_def fresh_tx_def)
  have outp3: "outputs st3 = outputs st" by (simp add: st3_def fresh_tx_def)
  have arr3: "arrays st3 x = arrays st x" if "x < lim st" for x
    using that by (simp add: st3_def fresh_tx_def)
  have txs3: "txs st3 = (txs st)(c :=
                 \<lparr> o_version = o_version (txs st a), o_locktime = o_locktime (txs st a),
                   o_ins = [], o_outs = [], o_defaultSequence = lim st \<rparr>)"
    by (simp add: st3_def fresh_tx_def c_def)
  have le3: "lim st \<le> lim st3" by (simp add: lim3)
  have in3: "in_ok st3 j" if j: "in_ok st j" for j
    by (rule in_ok_mono [OF j _ le3]) (simp add: inp3)
  have at3: "input_at st3 j = input_at st j" if j: "in_ok st j" for j
    by (rule input_at_unchanged [OF j _ arr3]) (simp add: inp3)
  have ok3: "list_all (in_ok st3) ?is" using okis in3 by (simp add: list_all_iff)
  from clone_ins_spec [OF ok3] obtain newI where HI: "ins_cloned c ?is st3 st4 newI"
    unfolding st4_def by (rule exE)
  note HI' = HI [unfolded ins_cloned_def]
  note t4 = HI' [THEN conjunct1]
  note ou4 = HI' [THEN conjunct2, THEN conjunct1]
  note li4 = HI' [THEN conjunct2, THEN conjunct2, THEN conjunct1]
  note be4 = HI' [THEN conjunct2, THEN conjunct2, THEN conjunct2, THEN conjunct1]
  note fr4 = HI' [THEN conjunct2, THEN conjunct2, THEN conjunct2, THEN conjunct2, THEN conjunct1]
  note di4 = HI' [THEN conjunct2, THEN conjunct2, THEN conjunct2, THEN conjunct2, THEN conjunct2,
               THEN conjunct1]
  note ma4 = HI' [THEN conjunct2, THEN conjunct2, THEN conjunct2, THEN conjunct2, THEN conjunct2,
               THEN conjunct2]
  have arr4: "arrays st4 x = arrays st3 x" if "x < lim st3" for x using be4 that by blast
  have inp4: "inputs st4 x = inputs st3 x" if "x < lim st3" for x using be4 that by blast
  have le4: "lim st \<le> lim st4" using le3 li4 by (rule le_trans)
  have arr4': "arrays st4 x = arrays st x" if x: "x < lim st" for x
  proof -
    from x have "x < lim st3" by (simp add: lim3)
    then show ?thesis using arr4 arr3 [OF x] by simp
  qed
  have out4: "out_ok st4 x" if x: "out_ok st x" for x
    by (rule out_ok_mono [OF x _ le4]) (simp add: ou4 outp3)
  have oat4: "output_at st4 x = output_at st x" if x: "out_ok st x" for x
    by (rule output_at_unchanged [OF x _ arr4']) (simp add: ou4 outp3)
  have ok4: "list_all (out_ok st4) ?xs" using okxs out4 by (simp add: list_all_iff)
  from clone_outs_spec [OF ok4] obtain newO where HO: "outs_cloned c ?xs st4 st5 newO"
    unfolding st5_def by (rule exE)
  note HO' = HO [unfolded outs_cloned_def]
  note t5 = HO' [THEN conjunct1]
  note in5 = HO' [THEN conjunct2, THEN conjunct1]
  note li5 = HO' [THEN conjunct2, THEN conjunct2, THEN conjunct1]
  note be5 = HO' [THEN conjunct2, THEN conjunct2, THEN conjunct2, THEN conjunct1]
  note fr5 = HO' [THEN conjunct2, THEN conjunct2, THEN conjunct2, THEN conjunct2, THEN conjunct1]
  note ma5 = HO' [THEN conjunct2, THEN conjunct2, THEN conjunct2, THEN conjunct2, THEN conjunct2]
  have arr5: "arrays st5 x = arrays st4 x" if "x < lim st4" for x using be5 that by blast
  have outp5: "outputs st5 x = outputs st4 x" if "x < lim st4" for x using be5 that by blast
  have le5: "lim st \<le> lim st5" using le4 li5 by (rule le_trans)
  have txc: "txs st5 c = \<lparr> o_version = o_version (txs st a), o_locktime = o_locktime (txs st a),
                            o_ins = newI, o_outs = newO, o_defaultSequence = lim st \<rparr>"
    unfolding t5 t4 txs3 by simp
  have txo: "txs st5 x = txs st x" if "x < lim st" for x
    using that unfolding t5 t4 txs3 by (simp add: c_def)
  have okI5: "in_ok st5 i" if i: "i \<in> set newI" for i
  proof -
    from fr4 i have "in_ok st4 i" by (simp add: list_all_iff)
    then show ?thesis by (rule in_ok_mono [OF _ _ li5]) (simp add: in5)
  qed
  have atI5: "input_at st5 i = input_at st4 i" if i: "i \<in> set newI" for i
  proof -
    from fr4 i have "in_ok st4 i" by (simp add: list_all_iff)
    then show ?thesis by (rule input_at_unchanged [OF _ _ arr5]) (simp add: in5)
  qed
  have mI: "map (input_at st5) newI = map clone_in (map (input_at st) ?is)"
  proof -
    have "map (input_at st5) newI = map (input_at st4) newI" using atI5 by simp
    also have "\<dots> = map (\<lambda>i. clone_in (input_at st3 i)) ?is" by (rule ma4)
    also have "\<dots> = map (\<lambda>i. clone_in (input_at st i)) ?is"
      using okis at3 by (simp add: list_all_iff)
    finally show ?thesis by (simp add: comp_def)
  qed
  have mO: "map (output_at st5) newO = map clone_out (map (output_at st) ?xs)"
  proof -
    have "map (output_at st5) newO = map (output_at st4) ?xs" by (rule ma5)
    also have "\<dots> = map (output_at st) ?xs" using okxs oat4 by (simp add: list_all_iff)
    finally show ?thesis by (simp add: clone_out_id comp_def)
  qed
  have r1: "lim st \<le> c" by (simp add: c_def)
  have r3: "unchanged_below (lim st) st st5"
    unfolding unchanged_below_def
  proof (intro allI impI conjI)
    fix x assume x: "x < lim st"
    then have x4: "x < lim st4" and x3: "x < lim st3" using le4 le3 by simp_all
    show "arrays st5 x = arrays st x" using arr5 [OF x4] arr4' [OF x] by simp
    show "inputs st5 x = inputs st x" using inp4 [OF x3] by (simp add: in5 inp3)
    show "outputs st5 x = outputs st x" using outp5 [OF x4] by (simp add: ou4 outp3)
    show "txs st5 x = txs st x" by (rule txo [OF x])
  qed
  have r4: "tx_at st5 c = clone (tx_at st a)"
    unfolding clone_eq by (simp add: tx_at_def txc mI mO)
  have r5: "distinct (o_ins (txs st5 c))" using di4 by (simp add: txc)
  have r6: "list_all (\<lambda>i. lim st \<le> i \<and> in_ok st5 i) (o_ins (txs st5 c))"
    unfolding txc using fr4 okI5 le3 by (simp add: list_all_iff) (meson le_trans)
  have r7: "list_all (out_ok st5) (o_outs (txs st5 c))"
    unfolding txc using fr5 by (simp add: list_all_iff)
  show ?thesis
    unfolding tc fst_conv snd_conv clone_result_def
    using r1 le5 r3 r4 r5 r6 r7 by (intro conjI)
qed

lemma new_Script_eq:
  "new_Script st = (lim st, st\<lparr>arrays := (arrays st)(lim st := []), lim := Suc (lim st)\<rparr>)"
  by (simp add: new_Script_def alloc_array_def)

lemma blank_scripts_Cons: "blank_scripts (i # is) st = blank_scripts is (blank_one i st)"
  apply (subst blank_scripts.simps)
  apply (unfold Let_def)
  apply (subst new_Script_eq)
  apply (simp only: prod.case)
  apply (simp add: set_script_def blank_one_def)
  done

lemma blank_scripts_spec:
  assumes "distinct is" and "list_all (in_ok st) is"
  shows "scripts_blanked is st (blank_scripts is st)"
  using assms
proof (induction "is" arbitrary: st)
  case Nil
  show ?case by (simp add: scripts_blanked_def)
next
  case (Cons i "is")
  define st1 where "st1 = blank_one i st"
  define st' where "st' = blank_scripts is st1"
  have c: "blank_scripts (i # is) st = st'"
    unfolding st'_def st1_def by (rule blank_scripts_Cons)
  from Cons.prems have ni: "i \<notin> set is" and di: "distinct is"
    and oki: "in_ok st i" and okis: "list_all (in_ok st) is" by simp_all
  have lim1: "lim st1 = Suc (lim st)" by (simp add: st1_def blank_one_def)
  have le1: "lim st \<le> lim st1" by (simp add: lim1)
  have arr1: "arrays st1 x = arrays st x" if "x < lim st" for x
    using that by (simp add: st1_def blank_one_def)
  have arr1n: "arrays st1 (lim st) = []" by (simp add: st1_def blank_one_def)
  have inp1: "inputs st1 j = inputs st j" if "j \<noteq> i" for j
    using that by (simp add: st1_def blank_one_def)
  have inp1i: "inputs st1 i = (inputs st i)\<lparr>o_script := lim st\<rparr>"
    by (simp add: st1_def blank_one_def)
  have txs1: "txs st1 = txs st" and out1: "outputs st1 = outputs st"
    by (simp_all add: st1_def blank_one_def)
  have seq1: "read_seq st1 q = read_seq st q" if "seq_ok st q" for q
    by (rule read_seq_cong [OF that arr1])
  have okj: "in_ok st1 j" if j: "j \<in> set is" for j
  proof -
    from j okis have o: "in_ok st j" by (simp add: list_all_iff)
    from j ni have "j \<noteq> i" by blast
    then have e: "inputs st1 j = inputs st j" by (rule inp1)
    show ?thesis by (rule in_ok_mono [OF o e le1])
  qed
  have ok1: "list_all (in_ok st1) is" using okj by (simp add: list_all_iff)
  have atj: "input_at st1 j = input_at st j" if j: "j \<in> set is" for j
  proof -
    from j okis have o: "in_ok st j" by (simp add: list_all_iff)
    from j ni have "j \<noteq> i" by blast
    then have e: "inputs st1 j = inputs st j" by (rule inp1)
    show ?thesis by (rule input_at_unchanged [OF o e arr1])
  qed
  have sqi: "seq_ok st (o_sequence (inputs st i))" using oki by (simp add: in_ok_def)
  have ati: "input_at st1 i = (input_at st i)\<lparr>script := []\<rparr>"
    by (simp add: input_at_def inp1i arr1n seq1 [OF sqi])
  have oki1: "in_ok st1 i"
  proof -
    have "seq_ok st1 (o_sequence (inputs st i))"
      using sqi by (cases "o_sequence (inputs st i)") (simp_all add: lim1)
    then show ?thesis using oki by (simp add: in_ok_def inp1i lim1)
  qed
  note H = Cons.IH [OF di ok1, folded st'_def, unfolded scripts_blanked_def]
  note t = H [THEN conjunct1]
  note ou = H [THEN conjunct2, THEN conjunct1]
  note li = H [THEN conjunct2, THEN conjunct2, THEN conjunct1]
  note be = H [THEN conjunct2, THEN conjunct2, THEN conjunct2, THEN conjunct1]
  note ot = H [THEN conjunct2, THEN conjunct2, THEN conjunct2, THEN conjunct2, THEN conjunct1]
  note ma = H [THEN conjunct2, THEN conjunct2, THEN conjunct2, THEN conjunct2, THEN conjunct2,
              THEN conjunct1]
  note ok' = H [THEN conjunct2, THEN conjunct2, THEN conjunct2, THEN conjunct2, THEN conjunct2,
               THEN conjunct2]
  have arr': "arrays st' x = arrays st1 x" if "x < lim st1" for x using be that by blast
  have e': "inputs st' i = inputs st1 i" using ot ni by blast
  have c1: "txs st' = txs st" using t txs1 by simp
  have c2: "outputs st' = outputs st" using ou out1 by simp
  have c3: "lim st \<le> lim st'" using le1 li by (rule le_trans)
  have c4: "\<forall>x<lim st. arrays st' x = arrays st x"
  proof (intro allI impI)
    fix x assume x: "x < lim st"
    then have "x < lim st1" by (simp add: lim1)
    then show "arrays st' x = arrays st x" using arr' arr1 [OF x] by simp
  qed
  have c5: "\<forall>j. j \<notin> set (i # is) \<longrightarrow> inputs st' j = inputs st j"
  proof (intro allI impI)
    fix j assume "j \<notin> set (i # is)"
    then have "j \<notin> set is" and "j \<noteq> i" by simp_all
    then show "inputs st' j = inputs st j" using ot inp1 by simp
  qed
  have ati': "input_at st' i = (input_at st i)\<lparr>script := []\<rparr>"
    using input_at_unchanged [OF oki1 e' arr'] ati by simp
  have ma1: "map (\<lambda>j. (input_at st1 j)\<lparr>script := []\<rparr>) is
               = map (\<lambda>j. (input_at st j)\<lparr>script := []\<rparr>) is"
    using atj by simp
  have c6: "map (input_at st') (i # is) = map (\<lambda>j. (input_at st j)\<lparr>script := []\<rparr>) (i # is)"
    using ma ma1 ati' by simp
  have oki': "in_ok st' i" by (rule in_ok_mono [OF oki1 e' li])
  have c7: "list_all (in_ok st') (i # is)" using ok' oki' by simp
  show ?case
    unfolding c scripts_blanked_def using c1 c2 c3 c4 c5 c6 c7 by (intro conjI)
qed

lemma input_at_same_arrays:
  assumes "inputs st' j = inputs st j" and "arrays st' = arrays st"
  shows "input_at st' j = input_at st j"
proof -
  have "read_seq st' q = read_seq st q" for q using assms(2) by (cases q) simp_all
  then show ?thesis using assms by (simp add: input_at_def)
qed

lemma output_at_same:
  assumes "outputs st' x = outputs st x" and "arrays st' = arrays st"
  shows "output_at st' x = output_at st x"
  using assms by (simp add: output_at_def)

lemma zero_sequences_spec:
  assumes "distinct is"
  shows "sequences_zeroed inIndex k is st (zero_sequences inIndex k is st)"
  using assms
proof (induction "is" arbitrary: k st)
  case Nil
  show ?case by (simp add: sequences_zeroed_def)
next
  case (Cons i "is")
  define st1 where "st1 = zero_step inIndex k i st"
  define st' where "st' = zero_sequences inIndex (Suc k) is st1"
  have c: "zero_sequences inIndex k (i # is) st = st'"
    by (simp add: st'_def st1_def zero_step_def)
  from Cons.prems have ni: "i \<notin> set is" and di: "distinct is" by simp_all
  have arr1: "arrays st1 = arrays st" and txs1: "txs st1 = txs st"
    and out1: "outputs st1 = outputs st" and lim1: "lim st1 = lim st"
    by (simp_all add: st1_def zero_step_def set_sequence_def)
  have inp1: "inputs st1 j = inputs st j" if "j \<noteq> i" for j
    using that by (simp add: st1_def zero_step_def set_sequence_def)
  have ati: "input_at st1 i = zero_seq inIndex (k, input_at st i)"
    by (simp add: st1_def zero_step_def set_sequence_def zero_seq_def input_at_def)
  have atj: "input_at st1 j = input_at st j" if "j \<in> set is" for j
  proof -
    from that ni have "j \<noteq> i" by blast
    then show ?thesis by (intro input_at_same_arrays inp1 arr1)
  qed
  note H = Cons.IH [OF di, of "Suc k" st1, folded st'_def, unfolded sequences_zeroed_def]
  note a = H [THEN conjunct1]
  note t = H [THEN conjunct2, THEN conjunct1]
  note ou = H [THEN conjunct2, THEN conjunct2, THEN conjunct1]
  note li = H [THEN conjunct2, THEN conjunct2, THEN conjunct2, THEN conjunct1]
  note ot = H [THEN conjunct2, THEN conjunct2, THEN conjunct2, THEN conjunct2, THEN conjunct1]
  note ma = H [THEN conjunct2, THEN conjunct2, THEN conjunct2, THEN conjunct2, THEN conjunct2]
  have e': "inputs st' i = inputs st1 i" using ot ni by blast
  have ati': "input_at st' i = zero_seq inIndex (k, input_at st i)"
    using input_at_same_arrays [OF e' a] ati by simp
  have m1: "map (input_at st1) is = map (input_at st) is" using atj by simp
  have c5: "\<forall>j. j \<notin> set (i # is) \<longrightarrow> inputs st' j = inputs st j"
  proof (intro allI impI)
    fix j assume "j \<notin> set (i # is)"
    then have "j \<notin> set is" and "j \<noteq> i" by simp_all
    then show "inputs st' j = inputs st j" using ot inp1 by simp
  qed
  have c6: "map (input_at st') (i # is)
              = map (zero_seq inIndex) (enumerate k (map (input_at st) (i # is)))"
    using ma m1 ati' by simp
  show ?case
    unfolding c sequences_zeroed_def
    using a arr1 t txs1 ou out1 li lim1 c5 c6 by (intro conjI) simp_all
qed

lemma set_script_view:
  assumes "distinct is" and "inIndex < length is"
  shows "map (input_at (set_script (is ! inIndex) s st)) is
           = (map (input_at st) is)
               [inIndex := (input_at st (is ! inIndex))\<lparr>script := arrays st s\<rparr>]"
proof (rule nth_equalityI)
  show "length (map (input_at (set_script (is ! inIndex) s st)) is)
          = length ((map (input_at st) is)
               [inIndex := (input_at st (is ! inIndex))\<lparr>script := arrays st s\<rparr>])"
    by simp
next
  fix k assume "k < length (map (input_at (set_script (is ! inIndex) s st)) is)"
  then have k: "k < length is" by simp
  have arr: "arrays (set_script (is ! inIndex) s st) = arrays st" by (simp add: set_script_def)
  show "map (input_at (set_script (is ! inIndex) s st)) is ! k
          = (map (input_at st) is)
               [inIndex := (input_at st (is ! inIndex))\<lparr>script := arrays st s\<rparr>] ! k"
  proof (cases "k = inIndex")
    case True
    have "read_seq (set_script (is ! inIndex) s st) q = read_seq st q" for q
      by (cases q) (simp_all add: set_script_def)
    then have "input_at (set_script (is ! inIndex) s st) (is ! inIndex)
            = (input_at st (is ! inIndex))\<lparr>script := arrays st s\<rparr>"
      by (simp add: input_at_def) (simp add: set_script_def)
    with True k show ?thesis by simp
  next
    case False
    with assms k have "is ! k \<noteq> is ! inIndex" by (simp add: nth_eq_iff_index_eq)
    then have "inputs (set_script (is ! inIndex) s st) (is ! k) = inputs st (is ! k)"
      by (simp add: set_script_def)
    then have "input_at (set_script (is ! inIndex) s st) (is ! k) = input_at st (is ! k)"
      by (rule input_at_same_arrays [OF _ arr])
    with False k show ?thesis by simp
  qed
qed

lemma unchanged_below_trans:
  "unchanged_below L st st' \<Longrightarrow> unchanged_below L st' st'' \<Longrightarrow> unchanged_below L st st''"
  by (simp add: unchanged_below_def)

lemma unchanged_below_refl: "unchanged_below L st st"
  by (simp add: unchanged_below_def)

lemma signature_txTmp_unfold:
  "signature_txTmp tx connectedScript inIndex hashType =
     (let t1 = clone tx;
          t2 = t1\<lparr>ins := map (\<lambda>txin. txin\<lparr>script := []\<rparr>) (ins t1)\<rparr>
      in if length (ins t2) \<le> inIndex then Inl TypeError
         else
           (let t3 = t2\<lparr>ins := (ins t2)[inIndex := (ins t2 ! inIndex)\<lparr>script := connectedScript\<rparr>]\<rparr>;
                t4 = (if hashType AND 0x1f = SIGHASH_NONE
                      then t3\<lparr>outs := [], ins := map (zero_seq inIndex) (enumerate 0 (ins t3))\<rparr>
                      else t3);
                t5 = (if hashType AND SIGHASH_ANYONECANPAY \<noteq> 0
                      then t4\<lparr>ins := [ins t4 ! inIndex]\<rparr> else t4)
            in Inr t5))"
  by (simp add: signature_txTmp_def Let_def zero_seq_def)

lemma store_sighash:
  assumes ok: "tx_ok st this" and cs: "connectedScript < lim st"
  shows "fst (hashTransactionForSignature_store sha256d this connectedScript inIndex hashType st)
           = hashTransactionForSignature sha256d (tx_at st this) (arrays st connectedScript)
               inIndex hashType
       \<and> unchanged_below (lim st) st
            (snd (hashTransactionForSignature_store sha256d this connectedScript inIndex hashType st))
       \<and> lim st \<le> lim (snd (hashTransactionForSignature_store sha256d this connectedScript
                                 inIndex hashType st))"
proof -
  define c where "c = fst (Transaction_clone this st)"
  define st1 where "st1 = snd (Transaction_clone this st)"
  have tc: "Transaction_clone this st = (c, st1)" by (simp add: c_def st1_def)
  note CR = Transaction_clone_spec [OF ok, folded c_def st1_def, unfolded clone_result_def]
  note c_ge = CR [THEN conjunct1]
  note le1 = CR [THEN conjunct2, THEN conjunct1]
  note ub1 = CR [THEN conjunct2, THEN conjunct2, THEN conjunct1]
  note v1 = CR [THEN conjunct2, THEN conjunct2, THEN conjunct2, THEN conjunct1]
  note di = CR [THEN conjunct2, THEN conjunct2, THEN conjunct2, THEN conjunct2, THEN conjunct1]
  note fr = CR [THEN conjunct2, THEN conjunct2, THEN conjunct2, THEN conjunct2, THEN conjunct2,
               THEN conjunct1]
  note oko = CR [THEN conjunct2, THEN conjunct2, THEN conjunct2, THEN conjunct2, THEN conjunct2,
               THEN conjunct2]
  define "is" where "is = o_ins (txs st1 c)"
  define xs where "xs = o_outs (txs st1 c)"
  define T1 where "T1 = clone (tx_at st this)"
  have is1: "o_ins (txs st1 c) = is" by (simp add: is_def)
  have dis: "distinct is" using di by (simp add: is_def)
  have fris: "\<And>j. j \<in> set is \<Longrightarrow> lim st \<le> j" and okis: "list_all (in_ok st1) is"
    using fr by (simp_all add: is_def list_all_iff)
  have okxs: "list_all (out_ok st1) xs" using oko by (simp add: xs_def)
  have V1: "tx_at st1 c = T1" using v1 by (simp add: T1_def)
  have insT1: "ins T1 = map (input_at st1) is" and outsT1: "outs T1 = map (output_at st1) xs"
    unfolding V1 [symmetric] by (simp_all add: tx_at_def is_def xs_def)
  have verT1: "version T1 = o_version (txs st1 c)" "locktime T1 = o_locktime (txs st1 c)"
    unfolding V1 [symmetric] by (simp_all add: tx_at_def)
  define st2 where "st2 = blank_scripts is st1"
  note SB = blank_scripts_spec [OF dis okis, folded st2_def, unfolded scripts_blanked_def]
  note txs2 = SB [THEN conjunct1]
  note out2 = SB [THEN conjunct2, THEN conjunct1]
  note le2 = SB [THEN conjunct2, THEN conjunct2, THEN conjunct1]
  note arr2 = SB [THEN conjunct2, THEN conjunct2, THEN conjunct2, THEN conjunct1]
  note inp2 = SB [THEN conjunct2, THEN conjunct2, THEN conjunct2, THEN conjunct2, THEN conjunct1]
  note ma2 = SB [THEN conjunct2, THEN conjunct2, THEN conjunct2, THEN conjunct2, THEN conjunct2,
                THEN conjunct1]
  define T2 where "T2 = T1\<lparr>ins := map (\<lambda>txin. txin\<lparr>script := []\<rparr>) (ins T1)\<rparr>"
  have arr2': "arrays st2 x = arrays st1 x" if "x < lim st1" for x using arr2 that by blast
  have oat2: "map (output_at st2) xs = map (output_at st1) xs"
  proof -
    have "output_at st2 x = output_at st1 x" if x: "x \<in> set xs" for x
    proof -
      from x okxs have o: "out_ok st1 x" by (simp add: list_all_iff)
      show ?thesis by (rule output_at_unchanged [OF o _ arr2']) (simp add: out2)
    qed
    then show ?thesis by simp
  qed
  have V2: "tx_at st2 c = T2"
    using ma2 oat2
    by (simp add: tx_at_def txs2 is1 xs_def [symmetric] T2_def insT1 outsT1 verT1 comp_def
          Transaction.equality)
  have ub2: "unchanged_below (lim st) st1 st2"
    unfolding unchanged_below_def
  proof (intro allI impI conjI)
    fix x assume x: "x < lim st"
    then have "x < lim st1" using le1 by simp
    then show "arrays st2 x = arrays st1 x" by (rule arr2')
    from x fris have "x \<notin> set is" by (meson not_le)
    then show "inputs st2 x = inputs st1 x" using inp2 by blast
    show "outputs st2 x = outputs st1 x" by (simp add: out2)
    show "txs st2 x = txs st1 x" by (simp add: txs2)
  qed
  have ub02: "unchanged_below (lim st) st st2" by (rule unchanged_below_trans [OF ub1 ub2])
  have le02: "lim st \<le> lim st2" using le1 le2 by (rule le_trans)
  have lenT2: "length (ins T2) = length is" by (simp add: T2_def insT1)
  have lenT1: "length (ins T1) = length is" by (simp add: insT1)
  show ?thesis
  proof (cases "length is \<le> inIndex")
    case True
    have F: "hashTransactionForSignature_store sha256d this connectedScript inIndex hashType st
               = (Inl TypeError, st2)"
      using True
      by (simp add: hashTransactionForSignature_store_def tc Let_def is1 st2_def [symmetric]
            txs2)
    have G: "signature_txTmp (tx_at st this) (arrays st connectedScript) inIndex hashType
               = Inl TypeError"
      using True lenT1
      by (simp add: signature_txTmp_unfold Let_def T1_def [symmetric])
    show ?thesis
      unfolding F fst_conv snd_conv
      using ub02 le02
      by (simp add: hashTransactionForSignature_def signature_buffer_def G)
  next
    case False
    then have lt: "inIndex < length is" by simp
    define st3 where "st3 = set_script (is ! inIndex) connectedScript st2"
    define st3' where "st3' = st3\<lparr>txs := (txs st3)(c := (txs st3 c)\<lparr>o_outs := []\<rparr>)\<rparr>"
    define st4 where "st4 = (if hashType AND 0x1f = SIGHASH_NONE
                             then zero_sequences inIndex 0 is st3' else st3)"
    define st5 where "st5 = (if hashType AND SIGHASH_ANYONECANPAY \<noteq> 0
                             then st4\<lparr>txs := (txs st4)(c := (txs st4 c)\<lparr>o_ins := [is ! inIndex]\<rparr>)\<rparr>
                             else st4)"
    define T3 where "T3 = T2\<lparr>ins := (ins T2)
                     [inIndex := (ins T2 ! inIndex)\<lparr>script := arrays st connectedScript\<rparr>]\<rparr>"
    define T4 where "T4 = (if hashType AND 0x1f = SIGHASH_NONE
                           then T3\<lparr>outs := [], ins := map (zero_seq inIndex) (enumerate 0 (ins T3))\<rparr>
                           else T3)"
    define T5 where "T5 = (if hashType AND SIGHASH_ANYONECANPAY \<noteq> 0
                           then T4\<lparr>ins := [ins T4 ! inIndex]\<rparr> else T4)"
    have txs3: "txs st3 = txs st2" and arr3: "arrays st3 = arrays st2"
      and out3: "outputs st3 = outputs st2" and lim3: "lim st3 = lim st2"
      by (simp_all add: st3_def set_script_def)
    have txs3c: "txs st3 c = txs st1 c" by (simp add: txs3 txs2)
    have arrcs: "arrays st2 connectedScript = arrays st connectedScript"
    proof -
      from cs le1 have "connectedScript < lim st1" by simp
      then have "arrays st2 connectedScript = arrays st1 connectedScript" by (rule arr2')
      also have "\<dots> = arrays st connectedScript" using ub1 cs by (simp add: unchanged_below_def)
      finally show ?thesis .
    qed
    have insT2: "ins T2 = map (input_at st2) is"
      unfolding V2 [symmetric] by (simp add: tx_at_def txs2 is1)
    have outsT2: "outs T2 = map (output_at st2) xs"
      unfolding V2 [symmetric] by (simp add: tx_at_def txs2 xs_def)
    have m3: "map (input_at st3) is = ins T3"
      unfolding st3_def set_script_view [OF dis lt] T3_def insT2
      using lt by (simp add: arrcs)
    have o3: "map (output_at st3) xs = outs T3"
    proof -
      have "output_at st3 x = output_at st2 x" for x
        by (rule output_at_same) (simp_all add: out3 arr3)
      then show ?thesis by (simp add: T3_def outsT2)
    qed
    have verT3: "version T3 = o_version (txs st1 c)" "locktime T3 = o_locktime (txs st1 c)"
      by (simp_all add: T3_def T2_def verT1)
    have ub3: "unchanged_below (lim st) st2 st3"
    proof -
      have "lim st \<le> is ! inIndex" using fris lt by simp
      then show ?thesis by (auto simp: unchanged_below_def st3_def set_script_def)
    qed
    have N4: "o_ins (txs st4 c) = is \<and> lim st4 = lim st2
        \<and> map (input_at st4) is = ins T4
        \<and> map (output_at st4) (o_outs (txs st4 c)) = outs T4
        \<and> o_version (txs st4 c) = o_version (txs st1 c)
        \<and> o_locktime (txs st4 c) = o_locktime (txs st1 c)
        \<and> unchanged_below (lim st) st3 st4"
    proof (cases "hashType AND 0x1f = SIGHASH_NONE")
      case True
      note Z = zero_sequences_spec [OF dis, of inIndex 0 st3', unfolded sequences_zeroed_def]
      have s4: "st4 = zero_sequences inIndex 0 is st3'" using True by (simp add: st4_def)
      note za = Z [THEN conjunct1, folded s4]
      note zt = Z [THEN conjunct2, THEN conjunct1, folded s4]
      note zo = Z [THEN conjunct2, THEN conjunct2, THEN conjunct1, folded s4]
      note zl = Z [THEN conjunct2, THEN conjunct2, THEN conjunct2, THEN conjunct1, folded s4]
      note zi = Z [THEN conjunct2, THEN conjunct2, THEN conjunct2, THEN conjunct2,
                   THEN conjunct1, folded s4]
      note zm = Z [THEN conjunct2, THEN conjunct2, THEN conjunct2, THEN conjunct2,
                   THEN conjunct2, folded s4]
      have "input_at st3' j = input_at st3 j" for j
        by (rule input_at_same_arrays) (simp_all add: st3'_def)
      then have at3': "input_at st3' = input_at st3" by (intro ext)
      have t4c: "txs st4 c = (txs st1 c)\<lparr>o_outs := []\<rparr>"
        by (simp add: zt st3'_def txs3c)
      have p1: "o_ins (txs st4 c) = is" by (simp add: t4c is1)
      have p2: "lim st4 = lim st2" by (simp add: zl st3'_def lim3)
      have p3: "map (input_at st4) is = ins T4"
        using True by (simp add: zm at3' m3 T4_def)
      have p4: "map (output_at st4) (o_outs (txs st4 c)) = outs T4"
        using True by (simp add: t4c T4_def)
      have p5: "o_version (txs st4 c) = o_version (txs st1 c)"
       and p6: "o_locktime (txs st4 c) = o_locktime (txs st1 c)"
        by (simp_all add: t4c)
      have p7: "unchanged_below (lim st) st3 st4"
        unfolding unchanged_below_def
      proof (intro allI impI conjI)
        fix x assume x: "x < lim st"
        show "arrays st4 x = arrays st3 x" by (simp add: za st3'_def)
        from x fris have "x \<notin> set is" by (meson not_le)
        then have "inputs st4 x = inputs st3' x" using zi by blast
        then show "inputs st4 x = inputs st3 x" by (simp add: st3'_def)
        show "outputs st4 x = outputs st3 x" by (simp add: zo st3'_def)
        from x c_ge have "x \<noteq> c" by simp
        then show "txs st4 x = txs st3 x" by (simp add: zt st3'_def)
      qed
      from p1 p2 p3 p4 p5 p6 p7 show ?thesis by (intro conjI)
    next
      case False
      then have s4: "st4 = st3" and t4: "T4 = T3" by (simp_all add: st4_def T4_def)
      have p1: "o_ins (txs st4 c) = is" by (simp add: s4 txs3c is1)
      have p2: "lim st4 = lim st2" by (simp add: s4 lim3)
      have p3: "map (input_at st4) is = ins T4" by (simp add: s4 t4 m3)
      have p4: "map (output_at st4) (o_outs (txs st4 c)) = outs T4"
        by (simp add: s4 t4 txs3c xs_def [symmetric] o3)
      have p5: "o_version (txs st4 c) = o_version (txs st1 c)"
       and p6: "o_locktime (txs st4 c) = o_locktime (txs st1 c)"
        by (simp_all add: s4 txs3c)
      have p7: "unchanged_below (lim st) st3 st4" by (simp add: s4 unchanged_below_refl)
      from p1 p2 p3 p4 p5 p6 p7 show ?thesis by (intro conjI)
    qed
    note is4 = N4 [THEN conjunct1]
    note lim4 = N4 [THEN conjunct2, THEN conjunct1]
    note m4 = N4 [THEN conjunct2, THEN conjunct2, THEN conjunct1]
    note V4o = N4 [THEN conjunct2, THEN conjunct2, THEN conjunct2, THEN conjunct1]
    note ver4 = N4 [THEN conjunct2, THEN conjunct2, THEN conjunct2, THEN conjunct2, THEN conjunct1]
                N4 [THEN conjunct2, THEN conjunct2, THEN conjunct2, THEN conjunct2, THEN conjunct2,
                    THEN conjunct1]
    note ub4 = N4 [THEN conjunct2, THEN conjunct2, THEN conjunct2, THEN conjunct2, THEN conjunct2,
                   THEN conjunct2]
    have verT4: "version T4 = o_version (txs st1 c)" "locktime T4 = o_locktime (txs st1 c)"
      by (simp_all add: T4_def verT3)
    have V4: "tx_at st4 c = T4"
      by (simp add: tx_at_def is4 m4 V4o ver4 verT4 Transaction.equality)
    have lenT4: "inIndex < length (ins T4)" using lt m4 [symmetric] by simp
    have nthT4: "ins T4 ! inIndex = input_at st4 (is ! inIndex)"
      using lt unfolding m4 [symmetric] by simp
    have V5: "tx_at st5 c = T5"
    proof (cases "hashType AND SIGHASH_ANYONECANPAY \<noteq> 0")
      case True
      then have s5: "st5 = st4\<lparr>txs := (txs st4)(c := (txs st4 c)\<lparr>o_ins := [is ! inIndex]\<rparr>)\<rparr>"
        and t5: "T5 = T4\<lparr>ins := [ins T4 ! inIndex]\<rparr>"
        by (simp_all add: st5_def T5_def)
      have "input_at st5 j = input_at st4 j" for j
        by (rule input_at_same_arrays) (simp_all add: s5)
      then have i5: "input_at st5 = input_at st4" by (intro ext)
      have "output_at st5 j = output_at st4 j" for j
        by (rule output_at_same) (simp_all add: s5)
      then have o5: "output_at st5 = output_at st4" by (intro ext)
      have t5c: "txs st5 c = (txs st4 c)\<lparr>o_ins := [is ! inIndex]\<rparr>" by (simp add: s5)
      have "tx_at st5 c = (tx_at st4 c)\<lparr>ins := [input_at st4 (is ! inIndex)]\<rparr>"
        by (simp add: tx_at_def i5 o5 t5c)
      then show ?thesis by (simp add: V4 t5 nthT4)
    next
      case False
      then show ?thesis by (simp add: st5_def T5_def V4)
    qed
    have ub5: "unchanged_below (lim st) st4 st5"
      using c_ge by (auto simp: unchanged_below_def st5_def)
    have lim5: "lim st5 = lim st2" by (simp add: st5_def lim4)
    have ub05: "unchanged_below (lim st) st st5"
      by (intro unchanged_below_trans [OF ub02] unchanged_below_trans [OF ub3]
            unchanged_below_trans [OF ub4] ub5)
    have F: "hashTransactionForSignature_store sha256d this connectedScript inIndex hashType st
               = (Inr (sha256d (serialize (tx_at st5 c) @ numToBytes (parseInt (Num hashType)) 4)),
                  st5)"
    proof -
      have a: "o_ins (txs st2 c) = is" by (simp add: txs2 is1)
      have e4: "(if hashType AND 0x1f = SIGHASH_NONE
                 then zero_sequences inIndex 0
                        (o_ins (txs (st3\<lparr>txs := (txs st3)(c := (txs st3 c)\<lparr>o_outs := []\<rparr>)\<rparr>) c))
                        (st3\<lparr>txs := (txs st3)(c := (txs st3 c)\<lparr>o_outs := []\<rparr>)\<rparr>)
                 else if hashType AND 0x1f = SIGHASH_SINGLE then st3 else st3) = st4"
        by (simp add: st4_def st3'_def txs3c is1)
      have e5: "(if hashType AND SIGHASH_ANYONECANPAY \<noteq> 0
                 then st4\<lparr>txs := (txs st4)(c := (txs st4 c)\<lparr>o_ins := [o_ins (txs st4 c) ! inIndex]\<rparr>)\<rparr>
                 else st4) = st5"
        by (simp add: st5_def is4)
      show ?thesis
        unfolding hashTransactionForSignature_store_def tc prod.case Let_def is1
          st2_def [symmetric] a st3_def [symmetric] e4 e5
        using False by simp
    qed
    have G: "signature_txTmp (tx_at st this) (arrays st connectedScript) inIndex hashType = Inr T5"
      using lt lenT1
      by (simp add: signature_txTmp_unfold Let_def T1_def [symmetric] T2_def [symmetric]
            T3_def [symmetric] T4_def [symmetric] T5_def)
    show ?thesis
      unfolding F fst_conv snd_conv
      using ub05 le02
      by (simp add: hashTransactionForSignature_def signature_buffer_def G V5 lim5)
  qed
qed

lemma tx_at_unchanged:
  assumes ok: "tx_ok st a" and ub: "unchanged_below (lim st) st st'" and le: "lim st \<le> lim st'"
  shows "tx_at st' a = tx_at st a \<and> tx_ok st' a"
proof -
  have arr: "arrays st' x = arrays st x" if "x < lim st" for x
    using ub that by (simp add: unchanged_below_def)
  from ok have a: "a < lim st" by (simp add: tx_ok_def)
  then have t: "txs st' a = txs st a" using ub by (simp add: unchanged_below_def)
  have i: "input_at st' i = input_at st i \<and> in_ok st' i" if "i \<in> set (o_ins (txs st a))" for i
  proof -
    from that ok have o: "in_ok st i" by (simp add: tx_ok_def list_all_iff)
    then have "i < lim st" by (simp add: in_ok_def)
    then have e: "inputs st' i = inputs st i" using ub by (simp add: unchanged_below_def)
    show ?thesis using input_at_unchanged [OF o e arr] in_ok_mono [OF o e le] by simp
  qed
  have x: "output_at st' x = output_at st x \<and> out_ok st' x" if "x \<in> set (o_outs (txs st a))" for x
  proof -
    from that ok have o: "out_ok st x" by (simp add: tx_ok_def list_all_iff)
    then have "x < lim st" by (simp add: out_ok_def)
    then have e: "outputs st' x = outputs st x" using ub by (simp add: unchanged_below_def)
    show ?thesis using output_at_unchanged [OF o e arr] out_ok_mono [OF o e le] by simp
  qed
  have "tx_at st' a = tx_at st a" using i x by (simp add: tx_at_def t)
  moreover have "tx_ok st' a" using a le i x by (simp add: tx_ok_def t list_all_iff)
  ultimately show ?thesis by simp
qed

lemma tx_ok_example_store: "tx_ok example_store 1"
  by (simp add: tx_ok_def in_ok_def example_store_obs del: One_nat_def)

text \<open>
  Claim C9: \<^verbatim>\<open>hashTransactionForSignature\<close> is deterministic, and the first call leaves the
  original transaction unchanged. For a transaction whose objects are all in the store and
  a connected script in the store, a second call, made in the store that the first call
  left, returns the result of the first call (the same digest, or the same TypeError for an
  index past the inputs); after the first call the transaction reads as before, and so
  does the connected script.
\<close>

theorem hashTransactionForSignature_deterministic:
  assumes "tx_ok st this" and "connectedScript < lim st"
  shows "fst (hashTransactionForSignature_store sha256d this connectedScript inIndex hashType
               (snd (hashTransactionForSignature_store sha256d this connectedScript inIndex
                       hashType st)))
           = fst (hashTransactionForSignature_store sha256d this connectedScript inIndex hashType st)
       \<and> tx_at (snd (hashTransactionForSignature_store sha256d this connectedScript inIndex
                       hashType st)) this
           = tx_at st this
       \<and> arrays (snd (hashTransactionForSignature_store sha256d this connectedScript inIndex
                        hashType st)) connectedScript
           = arrays st connectedScript"
proof -
  define st' where
    "st' = snd (hashTransactionForSignature_store sha256d this connectedScript inIndex hashType st)"
  note S = store_sighash [OF assms, of sha256d inIndex hashType, folded st'_def]
  note r = S [THEN conjunct1]
  note ub = S [THEN conjunct2, THEN conjunct1]
  note le = S [THEN conjunct2, THEN conjunct2]
  note U = tx_at_unchanged [OF assms(1) ub le]
  have cs': "connectedScript < lim st'" using assms(2) le by simp
  have a: "arrays st' connectedScript = arrays st connectedScript"
    using ub assms(2) by (simp add: unchanged_below_def)
  note S' = store_sighash [OF U [THEN conjunct2] cs', of sha256d inIndex hashType]
  have "fst (hashTransactionForSignature_store sha256d this connectedScript inIndex hashType st')
          = fst (hashTransactionForSignature_store sha256d this connectedScript inIndex hashType st)"
    unfolding S' [THEN conjunct1] r U [THEN conjunct1] a ..
  with U a show ?thesis unfolding st'_def by (intro conjI) simp_all
qed

theorem hashTransactionForSignature_deterministic_witness:
  "tx_ok example_store 1 \<and> (2::nat) < lim example_store
   \<and> fst (hashTransactionForSignature_store (\<lambda>b. b) 1 2 0 1
            (snd (hashTransactionForSignature_store (\<lambda>b. b) 1 2 0 1 example_store)))
       = fst (hashTransactionForSignature_store (\<lambda>b. b) 1 2 0 1 example_store)
   \<and> tx_at (snd (hashTransactionForSignature_store (\<lambda>b. b) 1 2 0 1 example_store)) 1
       = tx_at example_store 1"
proof -
  have l: "(2::nat) < lim example_store" by (simp add: example_store_obs)
  from hashTransactionForSignature_deterministic [OF tx_ok_example_store l, of "\<lambda>b. b" 0 1]
  show ?thesis using tx_ok_example_store l by simp
qed

end
